theory Spec2Isabelle
  imports Main "HOL-Library.Char_ord" "HOL-Library.List_Lexorder" "HOL-Library.Multiset"
begin

section \<open>Data model (model Contact of the Prisma schema)\<close>

datatype LinkPrecedence = primary | secondary

text \<open>
  One row of the Contact table. The column \<open>id\<close> is called \<open>idC\<close> here, because
  \<open>id\<close> is the identity function of HOL. Timestamps are milliseconds, strings are lists of
  code units compared lexicographically, as JavaScript compares them.
\<close>

record Contact =
  idC :: int
  phoneNumber :: "string option"
  email :: "string option"
  linkedId :: "int option"
  linkPrecedence :: LinkPrecedence
  createdAt :: int
  updatedAt :: int
  deletedAt :: "int option"

text \<open>
  The table behind the Prisma client: its rows in table order, and the autoincrement
  counter of the id column.
\<close>

record Store =
  rows :: "Contact list"
  nextId :: int

text \<open>
  \<open>orderBy: {createdAt: 'asc'}\<close> orders on one column. The order of rows with the same
  \<open>createdAt\<close> is not given by the query: the database engine chooses it with its query
  plan, and it need not be the same for two queries on the same table. A tie order ranks the
  rows; an engine has one for each of the two ordered queries of a call, the match query of
  line 23 and the read-back of line 204. The theorems below hold for every engine.
\<close>

type_synonym TieOrder = "Contact \<Rightarrow> int"

record Engine =
  matchTies :: TieOrder
  groupTies :: TieOrder

text \<open>
  Every await of the service can reject, and the service catches nothing: the rejection is
  the outcome of the call. \<open>ReadFails\<close>: one of the reads that come before the first
  write rejects (lines 23, 57, 84, 117 and 133; that of line 23 is made by every call).
  \<open>CreateFails\<close>: the \<open>create\<close> call rejects. \<open>TransactionFails\<close>: the
  \<open>$transaction\<close> call rejects. \<open>ReadBackFails\<close>: the \<open>findMany\<close> of line 204, which
  is awaited after the transaction has been committed, rejects.
\<close>

datatype Fault = NoFault | ReadFails | CreateFails | TransactionFails | ReadBackFails

datatype StoreError = ReadError | CreateError | TransactionError | RecordNotFound

record ContactInfo =
  primaryContatctId :: int
  emails :: "string list"
  phoneNumbers :: "string list"
  secondaryContactIds :: "int list"

record IdentifyResponse =
  contact :: ContactInfo

section \<open>JavaScript truthiness\<close>

definition truthyStr :: "string option \<Rightarrow> bool" where
  "truthyStr v = (case v of None \<Rightarrow> False | Some s \<Rightarrow> s \<noteq> [])"

definition truthyNum :: "int option \<Rightarrow> bool" where
  "truthyNum v = (case v of None \<Rightarrow> False | Some n \<Rightarrow> n \<noteq> 0)"

text \<open>\<open>v || null\<close>\<close>

definition orNull :: "string option \<Rightarrow> string option" where
  "orNull v = (if truthyStr v then v else None)"

text \<open>\<open>v ? [v] : []\<close>\<close>

definition optList :: "string option \<Rightarrow> string list" where
  "optList v = (case v of None \<Rightarrow> [] | Some s \<Rightarrow> if s \<noteq> [] then [s] else [])"

section \<open>The Prisma calls the service makes\<close>

text \<open>
  \<open>findMany\<close> with a \<open>where\<close> that always carries \<open>deletedAt: null\<close>. Without
  \<open>orderBy\<close> the rows come in table order. With \<open>orderBy: {createdAt: 'asc'}\<close> they
  come ascending in \<open>createdAt\<close>, those with the same \<open>createdAt\<close> in the engine's tie
  order for the query (rows that the engine ranks alike stay in table order).
\<close>

definition findMany :: "(Contact \<Rightarrow> bool) \<Rightarrow> Store \<Rightarrow> Contact list" where
  "findMany wh s = filter (\<lambda>c. wh c \<and> deletedAt c = None) (rows s)"

definition orderByCreatedAt :: "TieOrder \<Rightarrow> Contact list \<Rightarrow> Contact list" where
  "orderByCreatedAt tie cs = sort_key createdAt (sort_key tie cs)"

text \<open>\<open>findUnique({where: {id, deletedAt: null}})\<close>\<close>

definition findUnique :: "int \<Rightarrow> Store \<Rightarrow> Contact option" where
  "findUnique i s = find (\<lambda>c. idC c = i \<and> deletedAt c = None) (rows s)"

definition newContact ::
  "int \<Rightarrow> Store \<Rightarrow> string option \<Rightarrow> string option \<Rightarrow> int option \<Rightarrow> LinkPrecedence \<Rightarrow> Contact" where
  "newContact now s em ph lid prec =
     \<lparr>idC = nextId s, phoneNumber = ph, email = em, linkedId = lid, linkPrecedence = prec,
      createdAt = now, updatedAt = now, deletedAt = None\<rparr>"

definition create ::
  "Fault \<Rightarrow> int \<Rightarrow> Store \<Rightarrow> string option \<Rightarrow> string option \<Rightarrow> int option \<Rightarrow> LinkPrecedence
     \<Rightarrow> StoreError + Contact \<times> Store" where
  "create f now s em ph lid prec =
     (if f = CreateFails then Inl CreateError
      else Inr (newContact now s em ph lid prec,
                s\<lparr>rows := rows s @ [newContact now s em ph lid prec], nextId := nextId s + 1\<rparr>))"

text \<open>
  \<open>update({where: {id}, data: {email, phoneNumber, linkedId, linkPrecedence}})\<close>: the four
  columns are written and \<open>updatedAt\<close> is refreshed; the call rejects when no row has the id.
\<close>

definition writeFields :: "int \<Rightarrow> Contact \<Rightarrow> Contact \<Rightarrow> Contact" where
  "writeFields now u c =
     c\<lparr>email := email u, phoneNumber := phoneNumber u, linkedId := linkedId u,
       linkPrecedence := linkPrecedence u, updatedAt := now\<rparr>"

definition update :: "int \<Rightarrow> Contact \<Rightarrow> Contact list \<Rightarrow> StoreError + Contact list" where
  "update now u rs =
     (if idC u \<in> idC ` set rs
      then Inr (map (\<lambda>c. if idC c = idC u then writeFields now u c else c) rs)
      else Inl RecordNotFound)"

fun updateAll :: "int \<Rightarrow> Contact list \<Rightarrow> Contact list \<Rightarrow> StoreError + Contact list" where
  "updateAll now [] rs = Inr rs"
| "updateAll now (u # us) rs =
     (case update now u rs of Inl e \<Rightarrow> Inl e | Inr rs' \<Rightarrow> updateAll now us rs')"

text \<open>
  \<open>$transaction([...updates])\<close>: the updates run in order; when one rejects, or the store
  fails, nothing of the batch is kept and the caller is left with the store it passed in.
\<close>

definition transaction :: "Fault \<Rightarrow> int \<Rightarrow> Contact list \<Rightarrow> Store \<Rightarrow> StoreError + Store" where
  "transaction f now us s =
     (if f = TransactionFails then Inl TransactionError
      else case updateAll now us (rows s) of
             Inl e \<Rightarrow> Inl e
           | Inr rs \<Rightarrow> Inr (s\<lparr>rows := rs\<rparr>))"

section \<open>ContactService.formatResponse\<close>

text \<open>A JavaScript \<open>Set\<close> keeps its members in insertion order.\<close>

definition setAdd :: "'a list \<Rightarrow> 'a \<Rightarrow> 'a list" where
  "setAdd xs x = (if x \<in> set xs then xs else xs @ [x])"

definition newSet :: "'a list \<Rightarrow> 'a list" where
  "newSet xs = foldl setAdd [] xs"

text \<open>\<open>if (v) set.add(v)\<close>\<close>

definition addStr :: "string list \<Rightarrow> string option \<Rightarrow> string list" where
  "addStr xs v = foldl setAdd xs (optList v)"

fun visit ::
  "Contact \<Rightarrow> Contact list \<Rightarrow> string list \<times> string list \<times> int list \<Rightarrow> Contact
     \<Rightarrow> string list \<times> string list \<times> int list" where
  "visit p allContacts (es, ps, ids) c =
     (if idC c = idC p then (es, ps, ids)
      else if linkedId c = Some (idC p) \<or>
              find (\<lambda>c'. Some (idC c') = linkedId c \<and> linkedId c' = Some (idC p)) allContacts \<noteq> None
        then (addStr es (email c), addStr ps (phoneNumber c), setAdd ids (idC c))
      else if linkPrecedence c = primary \<and> idC c \<noteq> idC p then (es, ps, ids)
      else if linkPrecedence c = secondary
        then (addStr es (email c), addStr ps (phoneNumber c), setAdd ids (idC c))
      else (es, ps, ids))"

definition formatResponse :: "Contact \<Rightarrow> Contact list \<Rightarrow> IdentifyResponse" where
  "formatResponse p allContacts =
     (case foldl (visit p allContacts)
             (addStr [] (email p), addStr [] (phoneNumber p), []) allContacts of
        (es, ps, ids) \<Rightarrow>
          \<lparr>contact =
             \<lparr>primaryContatctId = idC p,
              emails = newSet (optList (email p) @ sort (filter (\<lambda>e. Some e \<noteq> email p) es)),
              phoneNumbers =
                newSet (optList (phoneNumber p) @ sort (filter (\<lambda>n. Some n \<noteq> phoneNumber p) ps)),
              secondaryContactIds = sort ids\<rparr>\<rparr>)"

text \<open>
  The controller sends the result with \<open>res.status(200).json(result)\<close>: an object is
  written with its own keys, in the order in which the object literal lists them.
\<close>

datatype json = JNumber int | JString string | JArray "json list" | JObject "(string \<times> json) list"

definition toJSON :: "IdentifyResponse \<Rightarrow> json" where
  "toJSON r =
     JObject [(''contact'',
       JObject [(''primaryContatctId'', JNumber (primaryContatctId (contact r))),
                (''emails'', JArray (map JString (emails (contact r)))),
                (''phoneNumbers'', JArray (map JString (phoneNumbers (contact r)))),
                (''secondaryContactIds'', JArray (map JNumber (secondaryContactIds (contact r))))])]"

definition keys :: "json \<Rightarrow> string list" where
  "keys j = (case j of JObject kvs \<Rightarrow> map fst kvs | _ \<Rightarrow> [])"

section \<open>ContactService.identifyContact\<close>

subsection \<open>Matching (lines 23-34)\<close>

text \<open>
  \<open>OR: [email ? {email} : {}, phoneNumber ? {phoneNumber} : {}]\<close>: Prisma drops an empty
  condition from an \<open>OR\<close> list, and an \<open>OR\<close> of no condition matches nothing.
\<close>

definition matchWhere :: "string option \<Rightarrow> string option \<Rightarrow> Contact \<Rightarrow> bool" where
  "matchWhere em ph c =
     ((truthyStr em \<and> email c = em) \<or> (truthyStr ph \<and> phoneNumber c = ph))"

definition matchingContacts ::
  "Engine \<Rightarrow> Store \<Rightarrow> string option \<Rightarrow> string option \<Rightarrow> Contact list" where
  "matchingContacts db s em ph = orderByCreatedAt (matchTies db) (findMany (matchWhere em ph) s)"

subsection \<open>Resolving the primaries (lines 48-68)\<close>

definition primaryOf :: "Store \<Rightarrow> Contact \<Rightarrow> Contact list" where
  "primaryOf s c =
     (if linkPrecedence c = primary then [c]
      else case linkedId c of
             None \<Rightarrow> []
           | Some l \<Rightarrow>
               if l \<noteq> 0
               then (case findUnique l s of
                       None \<Rightarrow> []
                     | Some p \<Rightarrow> if linkPrecedence p = primary then [p] else [])
               else [])"

fun collectPrimaries :: "Store \<Rightarrow> Contact list \<Rightarrow> Contact list" where
  "collectPrimaries s [] = []"
| "collectPrimaries s (c # cs) = primaryOf s c @ collectPrimaries s cs"

text \<open>
  \<open>new Map(entries)\<close>: a key keeps the place of its first entry and the value of its last.
\<close>

fun mapSet :: "(int \<times> Contact) list \<Rightarrow> int \<Rightarrow> Contact \<Rightarrow> (int \<times> Contact) list" where
  "mapSet [] k v = [(k, v)]"
| "mapSet ((k', v') # m) k v = (if k' = k then (k, v) # m else (k', v') # mapSet m k v)"

definition newMap :: "(int \<times> Contact) list \<Rightarrow> (int \<times> Contact) list" where
  "newMap kvs = foldl (\<lambda>m kv. mapSet m (fst kv) (snd kv)) [] kvs"

text \<open>\<open>Array.prototype.sort\<close> with a comparator on one key is a stable sort on that key.\<close>

definition uniquePrimaryContacts :: "Store \<Rightarrow> Contact list \<Rightarrow> Contact list" where
  "uniquePrimaryContacts s ms =
     sort_key createdAt (map snd (newMap (map (\<lambda>c. (idC c, c)) (collectPrimaries s ms))))"

subsection \<open>Choosing the ultimate primary and the updates (lines 70-128)\<close>

fun demotions :: "Store \<Rightarrow> Contact \<Rightarrow> Contact list \<Rightarrow> Contact list" where
  "demotions s ult [] = []"
| "demotions s ult (d # ds) =
     (d\<lparr>linkedId := Some (idC ult), linkPrecedence := secondary\<rparr>)
     # map (\<lambda>sec. sec\<lparr>linkedId := Some (idC ult)\<rparr>) (findMany (\<lambda>c. linkedId c = Some (idC d)) s)
     @ demotions s ult ds"

text \<open>
  What the reads decide: either the early return that creates a fresh primary (lines 36-46
  and 91-98), or an ultimate primary with the list \<open>contactsToUpdate\<close>. In the branch of
  line 83 the test is the source's, \<open>linkPrecedence === secondary && linkedId\<close>; the
  \<open>case\<close> under it only reads the number that the test has found.
\<close>

datatype Plan = CreatePrimary | Proceed Contact "Contact list"

definition plan :: "Engine \<Rightarrow> Store \<Rightarrow> string option \<Rightarrow> string option \<Rightarrow> Plan" where
  "plan db s em ph =
     (case matchingContacts db s em ph of
        [] \<Rightarrow> CreatePrimary
      | oldestMatchedContact # rest \<Rightarrow>
          (case uniquePrimaryContacts s (oldestMatchedContact # rest) of
             [] \<Rightarrow>
               (if linkPrecedence oldestMatchedContact = secondary
                   \<and> truthyNum (linkedId oldestMatchedContact)
                then (case linkedId oldestMatchedContact of
                        None \<Rightarrow> Proceed oldestMatchedContact []
                      | Some l \<Rightarrow>
                          (case findUnique l s of
                             Some foundPrimary \<Rightarrow> Proceed foundPrimary []
                           | None \<Rightarrow> CreatePrimary))
                else Proceed oldestMatchedContact [])
           | ultimatePrimaryContact # others \<Rightarrow>
               Proceed ultimatePrimaryContact (demotions s ultimatePrimaryContact others)))"

subsection \<open>The novelty test (lines 131-184)\<close>

definition clusterWhere :: "int \<Rightarrow> Contact \<Rightarrow> bool" where
  "clusterWhere pid c = (idC c = pid \<or> linkedId c = Some pid)"

fun findIndex :: "('a \<Rightarrow> bool) \<Rightarrow> 'a list \<Rightarrow> nat option" where
  "findIndex P [] = None"
| "findIndex P (x # xs) = (if P x then Some 0 else map_option Suc (findIndex P xs))"

text \<open>
  \<open>{...allRelatedContacts[i], ...updatedContact}\<close> is \<open>updatedContact\<close>: both objects have
  the same keys. A contact that is not in the list is skipped (the \<open>else\<close> branch is empty).
\<close>

definition reflectUpdate :: "Contact \<Rightarrow> Contact list \<Rightarrow> Contact \<Rightarrow> Contact list" where
  "reflectUpdate ult allc u =
     (if idC u \<noteq> idC ult
      then (case findIndex (\<lambda>c. idC c = idC u) allc of
              Some i \<Rightarrow> allc[i := u]
            | None \<Rightarrow> allc)
      else allc)"

definition allRelatedContacts :: "Store \<Rightarrow> Contact \<Rightarrow> Contact list \<Rightarrow> Contact list" where
  "allRelatedContacts s ult contactsToUpdate =
     foldl (reflectUpdate ult) (findMany (clusterWhere (idC ult)) s) contactsToUpdate"

definition existingEmails :: "Contact list \<Rightarrow> string option list" where
  "existingEmails allc = filter truthyStr (map email allc)"

definition existingPhoneNumbers :: "Contact list \<Rightarrow> string option list" where
  "existingPhoneNumbers allc = filter truthyStr (map phoneNumber allc)"

definition isNewEmail :: "Contact list \<Rightarrow> string option \<Rightarrow> bool" where
  "isNewEmail allc em = (truthyStr em \<and> em \<notin> set (existingEmails allc))"

definition isNewPhoneNumber :: "Contact list \<Rightarrow> string option \<Rightarrow> bool" where
  "isNewPhoneNumber allc ph = (truthyStr ph \<and> ph \<notin> set (existingPhoneNumbers allc))"

definition exactMatchExists :: "Contact list \<Rightarrow> string option \<Rightarrow> string option \<Rightarrow> bool" where
  "exactMatchExists allc em ph =
     list_ex (\<lambda>c. email c = orNull em \<and> phoneNumber c = orNull ph) allc"

definition createsSecondary :: "Contact list \<Rightarrow> string option \<Rightarrow> string option \<Rightarrow> bool" where
  "createsSecondary allc em ph =
     ((truthyStr em \<or> truthyStr ph) \<and> (isNewEmail allc em \<or> isNewPhoneNumber allc ph)
      \<and> \<not> exactMatchExists allc em ph)"

subsection \<open>Writing and reading back (lines 186-223)\<close>

definition primaryInFinalGroup :: "Contact \<Rightarrow> Contact list \<Rightarrow> Contact" where
  "primaryInFinalGroup ult finalGroupContacts =
     (case find (\<lambda>c. idC c = idC ult \<and> linkPrecedence c = primary) finalGroupContacts of
        Some p \<Rightarrow> p
      | None \<Rightarrow>
          (case find (\<lambda>c. linkPrecedence c = primary) finalGroupContacts of
             Some p \<Rightarrow> p
           | None \<Rightarrow> (case finalGroupContacts of p # rest \<Rightarrow> p | [] \<Rightarrow> ult)))"

definition finalGroupContacts :: "Engine \<Rightarrow> Store \<Rightarrow> Contact \<Rightarrow> Contact list" where
  "finalGroupContacts db s ult =
     orderByCreatedAt (groupTies db) (findMany (clusterWhere (idC ult)) s)"

definition respond :: "Engine \<Rightarrow> Store \<Rightarrow> Contact \<Rightarrow> IdentifyResponse" where
  "respond db s ult =
     formatResponse (primaryInFinalGroup ult (finalGroupContacts db s ult))
       (finalGroupContacts db s ult)"

text \<open>
  Lines 204-223: the read-back and the response. The read is awaited after the writes of the
  call have been committed; when it rejects, the call rejects and the writes stay.
\<close>

definition readBack ::
  "Engine \<Rightarrow> Fault \<Rightarrow> Store \<Rightarrow> Contact \<Rightarrow> (StoreError + IdentifyResponse) \<times> Store" where
  "readBack db f s ult =
     (if f = ReadBackFails then (Inl ReadError, s) else (Inr (respond db s ult), s))"

definition createPrimary ::
  "Fault \<Rightarrow> int \<Rightarrow> Store \<Rightarrow> string option \<Rightarrow> string option
     \<Rightarrow> (StoreError + IdentifyResponse) \<times> Store" where
  "createPrimary f now s em ph =
     (case create f now s (orNull em) (orNull ph) None primary of
        Inl e \<Rightarrow> (Inl e, s)
      | Inr (c, s') \<Rightarrow> (Inr (formatResponse c []), s'))"

text \<open>
  Lines 186-223. Between the writes of the call and its read-back other clients of the
  table may write to it: \<open>meanwhile\<close> is what they do to the table in that time.
\<close>

definition applyUpdates ::
  "(Store \<Rightarrow> Store) \<Rightarrow> Engine \<Rightarrow> Fault \<Rightarrow> int \<Rightarrow> Contact list \<Rightarrow> Store \<Rightarrow> Contact
     \<Rightarrow> (StoreError + IdentifyResponse) \<times> Store" where
  "applyUpdates meanwhile db f now contactsToUpdate s ult =
     (if contactsToUpdate \<noteq> []
      then (case transaction f now contactsToUpdate s of
              Inl e \<Rightarrow> (Inl e, s)
            | Inr s' \<Rightarrow> readBack db f (meanwhile s') ult)
      else readBack db f (meanwhile s) ult)"

text \<open>
  The call, with the table written by other clients between its writes and its read-back.
\<close>

definition identifyContactAmid ::
  "(Store \<Rightarrow> Store) \<Rightarrow> Engine \<Rightarrow> Fault \<Rightarrow> int \<Rightarrow> Store \<Rightarrow> string option \<Rightarrow> string option
     \<Rightarrow> (StoreError + IdentifyResponse) \<times> Store" where
  "identifyContactAmid meanwhile db f now s em ph =
     (if f = ReadFails then (Inl ReadError, s)
      else
        (case plan db s em ph of
           CreatePrimary \<Rightarrow> createPrimary f now s em ph
         | Proceed ult contactsToUpdate \<Rightarrow>
             (if createsSecondary (allRelatedContacts s ult contactsToUpdate) em ph
              then (case create f now s (orNull em) (orNull ph) (Some (idC ult)) secondary of
                      Inl e \<Rightarrow> (Inl e, s)
                    | Inr (createdSecondary, s') \<Rightarrow>
                        applyUpdates meanwhile db f now (contactsToUpdate @ [createdSecondary]) s'
                          ult)
              else applyUpdates meanwhile db f now contactsToUpdate s ult)))"

text \<open>The call when no other client writes to the table while it runs.\<close>

definition identifyContact ::
  "Engine \<Rightarrow> Fault \<Rightarrow> int \<Rightarrow> Store \<Rightarrow> string option \<Rightarrow> string option
     \<Rightarrow> (StoreError + IdentifyResponse) \<times> Store" where
  "identifyContact db f now s em ph = identifyContactAmid (\<lambda>t. t) db f now s em ph"

section \<open>Store invariants\<close>

text \<open>
  The autoincrement counter is positive; ids are unique, positive and below the counter; a
  primary has no \<open>linkedId\<close>; a secondary that is not deleted is linked to a primary that
  is not deleted.
\<close>

definition linksToPrimary :: "Contact list \<Rightarrow> Contact \<Rightarrow> bool" where
  "linksToPrimary rs c =
     list_ex (\<lambda>p. linkedId c = Some (idC p) \<and> linkPrecedence p = primary \<and> deletedAt p = None) rs"

definition wellFormed :: "Store \<Rightarrow> bool" where
  "wellFormed s =
     (0 < nextId s
      \<and> distinct (map idC (rows s))
      \<and> list_all (\<lambda>c. 0 < idC c \<and> idC c < nextId s) (rows s)
      \<and> list_all (\<lambda>c. linkPrecedence c = primary \<longrightarrow> linkedId c = None) (rows s)
      \<and> list_all (\<lambda>c. linkPrecedence c = secondary \<and> deletedAt c = None
                        \<longrightarrow> linksToPrimary (rows s) c) (rows s))"

section \<open>Concrete stores\<close>

definition mkContact ::
  "int \<Rightarrow> string option \<Rightarrow> string option \<Rightarrow> int option \<Rightarrow> LinkPrecedence \<Rightarrow> int \<Rightarrow> int option
     \<Rightarrow> Contact" where
  "mkContact i em ph l p t d =
     \<lparr>idC = i, phoneNumber = ph, email = em, linkedId = l, linkPrecedence = p,
      createdAt = t, updatedAt = t, deletedAt = d\<rparr>"

definition emptyStore :: Store where
  "emptyStore = \<lparr>rows = [], nextId = 1\<rparr>"

text \<open>An engine that leaves rows with the same \<open>createdAt\<close> in table order.\<close>

definition tableOrder :: Engine where
  "tableOrder = \<lparr>matchTies = (\<lambda>c. 0), groupTies = (\<lambda>c. 0)\<rparr>"

text \<open>
  An engine that answers the \<open>OR\<close> of the match query index by index: first the rows that
  the index on \<open>email\<close> finds for the email of the request, then those that the index on
  \<open>phoneNumber\<close> finds. The schema declares both indexes, and its provider, SQLite, plans
  the query this way.
\<close>

definition emailIndexFirst :: "string option \<Rightarrow> Engine" where
  "emailIndexFirst em =
     \<lparr>matchTies = (\<lambda>c. if email c = em then 0 else 1), groupTies = (\<lambda>c. 0)\<rparr>"

text \<open>Two primaries created in the same millisecond.\<close>

definition tieStore :: Store where
  "tieStore =
     \<lparr>rows = [mkContact 1 (Some ''z@x.com'') (Some ''111'') None primary 5 None,
              mkContact 2 (Some ''a@x.com'') (Some ''222'') None primary 5 None],
      nextId = 3\<rparr>"

text \<open>Two unrelated primaries.\<close>

definition georgeStore :: Store where
  "georgeStore =
     \<lparr>rows = [mkContact 11 (Some ''george@hillvalley.edu'') (Some ''919191'') None primary 100 None,
              mkContact 27 (Some ''biffsucks@hillvalley.edu'') (Some ''717171'') None primary 200 None],
      nextId = 28\<rparr>"

text \<open>A secondary whose primary has been soft-deleted.\<close>

definition orphanStore :: Store where
  "orphanStore =
     \<lparr>rows = [mkContact 1 (Some ''p@x.com'') None None primary 1 (Some 4),
              mkContact 2 (Some ''a@x.com'') None (Some 1) secondary 5 None],
      nextId = 3\<rparr>"

text \<open>Two primaries; the second has a soft-deleted secondary.\<close>

definition deletedStore :: Store where
  "deletedStore =
     \<lparr>rows = [mkContact 1 (Some ''a@x.com'') None None primary 1 None,
              mkContact 2 None (Some ''111'') None primary 2 None,
              mkContact 3 (Some ''old@x.com'') (Some ''111'') (Some 2) secondary 3 (Some 4)],
      nextId = 4\<rparr>"

text \<open>Two primaries; the second has a live secondary.\<close>

definition familyStore :: Store where
  "familyStore =
     \<lparr>rows = [mkContact 1 (Some ''a@x.com'') None None primary 1 None,
              mkContact 2 (Some ''b@x.com'') (Some ''111'') None primary 2 None,
              mkContact 3 (Some ''c@x.com'') (Some ''111'') (Some 2) secondary 3 None],
      nextId = 4\<rparr>"

text \<open>Two primaries created in the same millisecond, each with one secondary.\<close>

definition tiedPrimariesStore :: Store where
  "tiedPrimariesStore =
     \<lparr>rows = [mkContact 1 (Some ''a@x.com'') None None primary 0 None,
              mkContact 2 (Some ''b@x.com'') None None primary 0 None,
              mkContact 3 (Some ''c@x.com'') None (Some 2) secondary 1 None,
              mkContact 4 None (Some ''222'') (Some 1) secondary 2 None],
      nextId = 5\<rparr>"

text \<open>One cluster of three.\<close>

definition mergedStore :: Store where
  "mergedStore =
     \<lparr>rows = [mkContact 1 (Some ''b@x.com'') (Some ''222'') None primary 1 None,
              mkContact 2 (Some ''a@x.com'') (Some ''111'') (Some 1) secondary 2 None,
              mkContact 3 (Some ''c@x.com'') (Some ''111'') (Some 1) secondary 3 None],
      nextId = 4\<rparr>"

text \<open>
  The table after three requests on an empty table: two that create the primaries 1 and 2,
  and a third that joins them and whose transaction fails, so that the secondary 3 has been
  created and primary 2 has not been demoted.
\<close>

definition halfMergedStore :: Store where
  "halfMergedStore =
     \<lparr>rows = [mkContact 1 (Some ''george@hillvalley.edu'') (Some ''919191'') None primary 100 None,
              mkContact 2 (Some ''biffsucks@hillvalley.edu'') (Some ''717171'') None primary 200 None,
              mkContact 3 (Some ''george@hillvalley.edu'') (Some ''717171'') (Some 1) secondary 300 None],
      nextId = 4\<rparr>"

text \<open>Another client of the table soft-deletes the row with id \<open>i\<close> at time \<open>at\<close>.\<close>

definition softDelete :: "int \<Rightarrow> int \<Rightarrow> Store \<Rightarrow> Store" where
  "softDelete i at s =
     s\<lparr>rows := map (\<lambda>c. if idC c = i then c\<lparr>deletedAt := Some at\<rparr> else c) (rows s)\<rparr>"

section \<open>Definitions used in the proofs\<close>

text \<open>What a batch of updates does to one row: the updates that name its id, in order.\<close>

definition applyRow :: "int \<Rightarrow> Contact list \<Rightarrow> Contact \<Rightarrow> Contact" where
  "applyRow now us c = foldl (\<lambda>c u. if idC c = idC u then writeFields now u c else c) c us"

text \<open>A row whose id is in \<open>U\<close> becomes a secondary of \<open>pid\<close>; the other rows are untouched.\<close>

definition relink :: "int \<Rightarrow> int \<Rightarrow> int set \<Rightarrow> Contact \<Rightarrow> Contact" where
  "relink now pid U c =
     (if idC c \<in> U then c\<lparr>linkedId := Some pid, linkPrecedence := secondary, updatedAt := now\<rparr> else c)"

definition relinked :: "int \<Rightarrow> Contact \<Rightarrow> Contact list \<Rightarrow> Store \<Rightarrow> Store" where
  "relinked now ult us s = s\<lparr>rows := map (relink now (idC ult) (idC ` set us)) (rows s)\<rparr>"

definition insertRow :: "Store \<Rightarrow> Contact \<Rightarrow> Store" where
  "insertRow s n = s\<lparr>rows := rows s @ [n], nextId := nextId s + 1\<rparr>"

definition newSecondary :: "int \<Rightarrow> Store \<Rightarrow> string option \<Rightarrow> string option \<Rightarrow> Contact \<Rightarrow> Contact" where
  "newSecondary now s em ph ult = newContact now s (orNull em) (orNull ph) (Some (idC ult)) secondary"

text \<open>
  The state in which a list of updates is about to be written: the store is well formed,
  the ultimate primary is a live primary that no update names, every update names a row,
  copies its email and phone and makes it a secondary of the ultimate primary, and the
  updates cover every live row linked to an updated row.
\<close>

definition mergeReady :: "Store \<Rightarrow> Contact \<Rightarrow> Contact list \<Rightarrow> bool" where
  "mergeReady s ult us \<longleftrightarrow>
     wellFormed s \<and> ult \<in> set (rows s) \<and> linkPrecedence ult = primary \<and> deletedAt ult = None
     \<and> idC ult \<notin> idC ` set us \<and> idC ` set us \<subseteq> idC ` set (rows s)
     \<and> (\<forall>c\<in>set (rows s). \<forall>u\<in>set us. idC u = idC c \<longrightarrow>
           email u = email c \<and> phoneNumber u = phoneNumber c \<and> linkedId u = Some (idC ult)
           \<and> linkPrecedence u = secondary)
     \<and> (\<forall>c\<in>set (rows s). \<forall>p\<in>set (rows s).
           deletedAt c = None \<and> linkedId c = Some (idC p) \<and> idC p \<in> idC ` set us
           \<longrightarrow> idC c \<in> idC ` set us)"

text \<open>The link columns of a store, row by row: id, precedence, linkedId, deletedAt.\<close>

definition linkView :: "Store \<Rightarrow> (int \<times> LinkPrecedence \<times> int option \<times> int option) list" where
  "linkView s = map (\<lambda>c. (idC c, linkPrecedence c, linkedId c, deletedAt c)) (rows s)"

text \<open>
  The cluster of a primary id in a store: the live row with that id and the live rows linked
  to it; the non-empty values of a column over a set of rows; and the contacts other than
  the primary that \<open>formatResponse\<close> lists.
\<close>

definition cluster :: "Store \<Rightarrow> int \<Rightarrow> Contact set" where
  "cluster s pid =
     {c \<in> set (rows s). deletedAt c = None \<and> (idC c = pid \<or> linkedId c = Some pid)}"

definition truthyValues :: "(Contact \<Rightarrow> string option) \<Rightarrow> Contact set \<Rightarrow> string set" where
  "truthyValues fld C = {v. v \<noteq> [] \<and> (\<exists>c\<in>C. fld c = Some v)}"

definition contributes :: "Contact \<Rightarrow> Contact list \<Rightarrow> Contact \<Rightarrow> bool" where
  "contributes p allContacts c \<longleftrightarrow>
     idC c \<noteq> idC p \<and>
     (linkedId c = Some (idC p)
      \<or> find (\<lambda>c'. Some (idC c') = linkedId c \<and> linkedId c' = Some (idC p)) allContacts \<noteq> None
      \<or> linkPrecedence c = secondary)"

text \<open>
  The third invariant of the data model: two live rows that share a non-empty email or a
  non-empty phone belong to one cluster. The root of a row is its own id when it has no
  \<open>linkedId\<close>, and its \<open>linkedId\<close> otherwise.
\<close>

definition rootId :: "Contact \<Rightarrow> int" where
  "rootId c = (case linkedId c of None \<Rightarrow> idC c | Some l \<Rightarrow> l)"

definition sharesField :: "Contact \<Rightarrow> Contact \<Rightarrow> bool" where
  "sharesField x y =
     ((truthyStr (email x) \<and> email x = email y)
      \<or> (truthyStr (phoneNumber x) \<and> phoneNumber x = phoneNumber y))"

definition clustersDisjoint :: "Store \<Rightarrow> bool" where
  "clustersDisjoint s =
     list_all (\<lambda>x. list_all (\<lambda>y. deletedAt x = None \<and> deletedAt y = None \<and> sharesField x y
                                  \<longrightarrow> rootId x = rootId y) (rows s)) (rows s)"

section \<open>Basic facts about the store calls\<close>

lemma truthyStr_simps:
  "truthyStr None = False" "truthyStr (Some s) = (s \<noteq> [])"
  by (simp_all add: truthyStr_def)

lemma findMany_iff:
  "c \<in> set (findMany wh s) \<longleftrightarrow> c \<in> set (rows s) \<and> wh c \<and> deletedAt c = None"
  by (auto simp: findMany_def)

section \<open>Tie orders\<close>

text \<open>
  The tie orders leave the engine free: whatever order of the found rows is ascending in
  \<open>createdAt\<close>, some tie order yields it (the rows of a table are pairwise different,
  since their ids are).
\<close>

lemma filter_key_single:
  assumes "distinct xs" "k \<in> set xs" "inj_on f (set xs)"
  shows "filter (\<lambda>x. f k = f x) xs = [k]"
proof -
  have "filter (\<lambda>x. f k = f x) xs = filter (\<lambda>x. k = x) xs"
    using assms(2,3) by (intro filter_cong refl) (auto simp: inj_on_def)
  also have "\<dots> = [k]"
    using assms(1,2) by (induction xs) (auto simp: filter_empty_conv)
  finally show ?thesis .
qed

lemma position_upt:
  "distinct rs \<Longrightarrow> map (\<lambda>c. length (takeWhile (\<lambda>x. x \<noteq> c) rs)) rs = [0..<length rs]"
proof (induction rs)
  case Nil
  show ?case by simp
next
  case (Cons a rs)
  have "map (\<lambda>c. length (takeWhile (\<lambda>x. x \<noteq> c) (a # rs))) rs
          = map (\<lambda>c. Suc (length (takeWhile (\<lambda>x. x \<noteq> c) rs))) rs"
    using Cons.prems by (intro map_cong refl) auto
  also have "\<dots> = map Suc (map (\<lambda>c. length (takeWhile (\<lambda>x. x \<noteq> c) rs)) rs)"
    by simp
  also have "\<dots> = map Suc [0..<length rs]"
    using Cons by simp
  finally show ?case
    by (simp add: map_Suc_upt upt_conv_Cons del: upt_Suc)
qed

lemma orderByCreatedAt_any:
  assumes m: "mset rs = mset cs" and srt: "sorted (map createdAt rs)" and d: "distinct cs"
  shows "\<exists>tie. orderByCreatedAt tie cs = rs"
proof -
  define tie :: TieOrder where "tie c = int (length (takeWhile (\<lambda>x. x \<noteq> c) rs))" for c
  have drs: "distinct rs" using m d by (metis mset_eq_imp_distinct_iff)
  have sets: "set rs = set cs" using m by (metis mset_eq_setD)
  have "map tie rs = map int (map (\<lambda>c. length (takeWhile (\<lambda>x. x \<noteq> c) rs)) rs)"
    by (simp add: tie_def)
  then have pos: "map tie rs = map int [0..<length rs]"
    unfolding position_upt [OF drs] .
  have st: "sorted (map tie rs)"
    unfolding pos by (simp add: sorted_map)
  have "distinct (map tie rs)"
    unfolding pos by (simp add: distinct_map)
  then have inj: "inj_on tie (set rs)" by (simp add: distinct_map)
  have "sort_key tie cs = rs"
  proof (rule properties_for_sort_key [OF m _ st])
    fix k assume k: "k \<in> set rs"
    from filter_key_single [OF drs k inj] filter_key_single [OF d, of k tie] k inj sets
    show "filter (\<lambda>x. tie k = tie x) rs = filter (\<lambda>x. tie k = tie x) cs" by simp
  qed
  then have "orderByCreatedAt tie cs = rs"
    by (simp add: orderByCreatedAt_def sort_key_id_if_sorted [OF srt])
  then show ?thesis by blast
qed

section \<open>Updates, resolved primaries and the invariant\<close>

lemma applyRow_Nil: "applyRow now [] c = c"
  by (simp add: applyRow_def)

lemma applyRow_Cons:
  "applyRow now (u # us) c = applyRow now us (if idC c = idC u then writeFields now u c else c)"
  by (simp add: applyRow_def)

lemma idC_writeFields: "idC (writeFields now u c) = idC c"
  by (simp add: writeFields_def)

lemma idC_applyRow: "idC (applyRow now us c) = idC c"
  by (induction us arbitrary: c) (simp_all add: applyRow_Nil applyRow_Cons idC_writeFields)

lemma updateAll_applyRow:
  "idC ` set us \<subseteq> idC ` set rs \<Longrightarrow> updateAll now us rs = Inr (map (applyRow now us) rs)"
proof (induction us arbitrary: rs)
  case Nil
  show ?case by (simp add: applyRow_Nil)
next
  case (Cons u us)
  let ?g = "\<lambda>c. if idC c = idC u then writeFields now u c else c"
  have "map idC (map ?g rs) = map idC rs"
    by (induction rs) (simp_all add: idC_writeFields)
  then have ids: "idC ` set (map ?g rs) = idC ` set rs"
    by (metis set_map)
  have u: "update now u rs = Inr (map ?g rs)"
    using Cons.prems by (simp add: update_def)
  have "updateAll now us (map ?g rs) = Inr (map (applyRow now us) (map ?g rs))"
    using Cons.prems by (intro Cons.IH) (simp add: ids del: set_map)
  then show ?case
    by (simp add: u applyRow_Cons comp_def)
qed

lemma applyRow_none: "idC c \<notin> idC ` set us \<Longrightarrow> applyRow now us c = c"
  by (induction us arbitrary: c) (auto simp: applyRow_Nil applyRow_Cons)

lemma applyRow_uniform:
  assumes "\<forall>u\<in>set us. idC u = idC c \<longrightarrow>
             email u = email c \<and> phoneNumber u = phoneNumber c \<and> linkedId u = Some pid
             \<and> linkPrecedence u = secondary"
  shows "applyRow now us c = relink now pid (idC ` set us) c"
  using assms
proof (induction us arbitrary: c)
  case Nil
  show ?case by (simp add: applyRow_Nil relink_def)
next
  case (Cons u us)
  show ?case
  proof (cases "idC c = idC u")
    case False
    then show ?thesis using Cons by (simp add: applyRow_Cons relink_def)
  next
    case True
    let ?c1 = "c\<lparr>linkedId := Some pid, linkPrecedence := secondary, updatedAt := now\<rparr>"
    have w: "writeFields now u c = ?c1"
      using Cons.prems True by (simp add: writeFields_def)
    have "applyRow now us ?c1 = relink now pid (idC ` set us) ?c1"
      using Cons.prems by (intro Cons.IH) simp
    then show ?thesis using True by (simp add: applyRow_Cons w relink_def)
  qed
qed

lemma updateAll_relink:
  assumes "idC ` set us \<subseteq> idC ` set rs"
    and "\<forall>c\<in>set rs. \<forall>u\<in>set us. idC u = idC c \<longrightarrow>
             email u = email c \<and> phoneNumber u = phoneNumber c \<and> linkedId u = Some pid
             \<and> linkPrecedence u = secondary"
  shows "updateAll now us rs = Inr (map (relink now pid (idC ` set us)) rs)"
proof -
  have "map (applyRow now us) rs = map (relink now pid (idC ` set us)) rs"
    using assms(2) by (intro map_cong refl applyRow_uniform) blast
  then show ?thesis using updateAll_applyRow [OF assms(1)] by simp
qed

lemma findUnique_Some:
  "findUnique i s = Some p \<Longrightarrow> p \<in> set (rows s) \<and> idC p = i \<and> deletedAt p = None"
  by (auto simp: findUnique_def find_Some_iff)

lemma findUnique_None:
  "findUnique i s = None \<Longrightarrow> p \<in> set (rows s) \<Longrightarrow> idC p = i \<Longrightarrow> deletedAt p \<noteq> None"
  by (auto simp: findUnique_def find_None_iff)

lemma matching_iff:
  "c \<in> set (matchingContacts db s em ph) \<longleftrightarrow>
     c \<in> set (rows s) \<and> matchWhere em ph c \<and> deletedAt c = None"
  by (simp add: matchingContacts_def orderByCreatedAt_def findMany_iff)

lemma primaryOf_cases:
  assumes "q \<in> set (primaryOf s c)"
  shows "(q = c \<and> linkPrecedence c = primary)
         \<or> (linkPrecedence c \<noteq> primary \<and> (\<exists>l. linkedId c = Some l \<and> l \<noteq> 0 \<and> findUnique l s = Some q)
             \<and> linkPrecedence q = primary)"
proof (cases "linkPrecedence c = primary")
  case True
  then have "primaryOf s c = [c]" by (simp add: primaryOf_def)
  with assms True show ?thesis by simp
next
  case False
  show ?thesis
  proof (cases "linkedId c")
    case None
    with False have "primaryOf s c = []" by (simp add: primaryOf_def)
    with assms show ?thesis by simp
  next
    case l: (Some l)
    show ?thesis
    proof (cases "findUnique l s")
      case None
      with False l have "primaryOf s c = []" by (simp add: primaryOf_def)
      with assms show ?thesis by simp
    next
      case (Some p)
      with False l have
        "primaryOf s c = (if l \<noteq> 0 \<and> linkPrecedence p = primary then [p] else [])"
        by (simp add: primaryOf_def)
      with assms have "l \<noteq> 0 \<and> linkPrecedence p = primary \<and> q = p"
        by (cases "l \<noteq> 0 \<and> linkPrecedence p = primary") simp_all
      with False l Some show ?thesis by simp
    qed
  qed
qed

lemma primaryOf_live:
  assumes "q \<in> set (primaryOf s c)" and "c \<in> set (rows s)" and "deletedAt c = None"
  shows "q \<in> set (rows s) \<and> deletedAt q = None \<and> linkPrecedence q = primary"
  using primaryOf_cases [OF assms(1)] assms(2,3) findUnique_Some [of _ s q] by blast

lemma collectPrimaries_set:
  "set (collectPrimaries s ms) = (\<Union>c\<in>set ms. set (primaryOf s c))"
  by (induction ms) auto

lemma collectPrimaries_live:
  assumes "q \<in> set (collectPrimaries s ms)"
    and "\<forall>c\<in>set ms. c \<in> set (rows s) \<and> deletedAt c = None"
  shows "q \<in> set (rows s) \<and> deletedAt q = None \<and> linkPrecedence q = primary"
  using assms by (auto simp: collectPrimaries_set dest: primaryOf_live)

lemma mapSet_set: "set (mapSet m k v) \<subseteq> insert (k, v) (set m)"
  by (induction m k v rule: mapSet.induct) auto

lemma mapSet_keys:
  "map fst (mapSet m k v) = (if k \<in> fst ` set m then map fst m else map fst m @ [k])"
  by (induction m k v rule: mapSet.induct) auto

lemma newMap_fold:
  assumes "distinct (map fst m)" and "set m \<subseteq> A" and "set kvs \<subseteq> A"
  shows "distinct (map fst (foldl (\<lambda>m kv. mapSet m (fst kv) (snd kv)) m kvs))
         \<and> set (foldl (\<lambda>m kv. mapSet m (fst kv) (snd kv)) m kvs) \<subseteq> A
         \<and> fst ` set (foldl (\<lambda>m kv. mapSet m (fst kv) (snd kv)) m kvs) = fst ` set m \<union> fst ` set kvs"
  using assms
proof (induction kvs arbitrary: m)
  case Nil
  then show ?case by simp
next
  case (Cons kv kvs)
  let ?m = "mapSet m (fst kv) (snd kv)"
  have d: "distinct (map fst ?m)"
    using Cons.prems(1) by (simp add: mapSet_keys)
  have s: "set ?m \<subseteq> A"
    using mapSet_set [of m "fst kv" "snd kv"] Cons.prems by auto
  have k: "fst ` set ?m = insert (fst kv) (fst ` set m)"
    using arg_cong [OF mapSet_keys [of m "fst kv" "snd kv"], of set] by (auto split: if_splits)
  from Cons.IH [OF d s] Cons.prems(3) k show ?case by auto
qed

lemma newMap_props:
  "distinct (map fst (newMap kvs)) \<and> set (newMap kvs) \<subseteq> set kvs
   \<and> fst ` set (newMap kvs) = fst ` set kvs"
  using newMap_fold [of "[]" "set kvs" kvs] by (simp add: newMap_def)

lemma distinct_map_sort_key: "distinct (map f xs) \<Longrightarrow> distinct (map f (sort_key g xs))"
  by (simp add: distinct_map)

lemma uniquePrimaryContacts_subset:
  "set (uniquePrimaryContacts s ms) \<subseteq> set (collectPrimaries s ms)"
  using newMap_props [of "map (\<lambda>c. (idC c, c)) (collectPrimaries s ms)"]
  by (auto simp: uniquePrimaryContacts_def)

lemma uniquePrimaryContacts_ids:
  "idC ` set (uniquePrimaryContacts s ms) = idC ` set (collectPrimaries s ms)"
proof -
  let ?kvs = "map (\<lambda>c. (idC c, c)) (collectPrimaries s ms)"
  have sub: "set (newMap ?kvs) \<subseteq> set ?kvs" and keys: "fst ` set (newMap ?kvs) = fst ` set ?kvs"
    using newMap_props [of ?kvs] by blast+
  have "idC ` snd ` set (newMap ?kvs) = fst ` set (newMap ?kvs)"
    using sub by (force simp: image_iff)
  then show ?thesis
    by (simp add: uniquePrimaryContacts_def keys image_image)
qed

lemma uniquePrimaryContacts_distinct: "distinct (map idC (uniquePrimaryContacts s ms))"
proof -
  let ?kvs = "map (\<lambda>c. (idC c, c)) (collectPrimaries s ms)"
  have sub: "set (newMap ?kvs) \<subseteq> set ?kvs" and d: "distinct (map fst (newMap ?kvs))"
    using newMap_props [of ?kvs] by blast+
  have "\<forall>kv\<in>set (newMap ?kvs). idC (snd kv) = fst kv"
    using sub by auto
  then have "map (idC \<circ> snd) (newMap ?kvs) = map fst (newMap ?kvs)"
    by (intro map_cong) simp_all
  with d have "distinct (map idC (map snd (newMap ?kvs)))" by (simp del: map_eq_conv)
  then show ?thesis
    unfolding uniquePrimaryContacts_def by (rule distinct_map_sort_key)
qed

lemma uniquePrimaryContacts_sorted: "sorted (map createdAt (uniquePrimaryContacts s ms))"
  by (simp add: uniquePrimaryContacts_def)

lemma uniquePrimaryContacts_live:
  assumes "q \<in> set (uniquePrimaryContacts s (matchingContacts db s em ph))"
  shows "q \<in> set (rows s) \<and> deletedAt q = None \<and> linkPrecedence q = primary"
  using assms uniquePrimaryContacts_subset [of s "matchingContacts db s em ph"]
  by (intro collectPrimaries_live [of q s "matchingContacts db s em ph"]) (auto simp: matching_iff)

lemma demotions_set:
  "set (demotions s ult ds) =
     (\<lambda>d. d\<lparr>linkedId := Some (idC ult), linkPrecedence := secondary\<rparr>) ` set ds
     \<union> (\<Union>d\<in>set ds. (\<lambda>sec. sec\<lparr>linkedId := Some (idC ult)\<rparr>)
                        ` set (findMany (\<lambda>c. linkedId c = Some (idC d)) s))"
  by (induction ds) auto

lemma demotions_ids:
  "idC ` set (demotions s ult ds) =
     idC ` set ds \<union> idC ` {c \<in> set (rows s). deletedAt c = None \<and> linkedId c \<in> Some ` idC ` set ds}"
proof (induction ds)
  case Nil
  show ?case by simp
next
  case (Cons d ds)
  have split: "{c \<in> set (rows s). deletedAt c = None \<and> linkedId c \<in> Some ` idC ` set (d # ds)} =
        set (findMany (\<lambda>c. linkedId c = Some (idC d)) s)
        \<union> {c \<in> set (rows s). deletedAt c = None \<and> linkedId c \<in> Some ` idC ` set ds}"
    by (auto simp: findMany_iff)
  have "idC ` set (demotions s ult (d # ds)) =
          insert (idC d) (idC ` set (findMany (\<lambda>c. linkedId c = Some (idC d)) s)
            \<union> idC ` set (demotions s ult ds))"
    by (simp add: image_Un image_image)
  then show ?case
    unfolding Cons.IH split by (simp add: image_Un Un_ac)
qed

lemma plan_cases:
  assumes "plan db s em ph = Proceed ult upd"
  obtains (merge) others where
      "uniquePrimaryContacts s (matchingContacts db s em ph) = ult # others"
      "upd = demotions s ult others"
    | (fallback) "uniquePrimaryContacts s (matchingContacts db s em ph) = []" "upd = []"
      "ult \<in> set (rows s)" "deletedAt ult = None" "matchingContacts db s em ph \<noteq> []"
proof (cases "matchingContacts db s em ph")
  case Nil
  with assms show ?thesis by (simp add: plan_def)
next
  case ms: (Cons oldest rest)
  then have live: "oldest \<in> set (rows s) \<and> deletedAt oldest = None"
    using matching_iff [of oldest db s em ph] by simp
  show ?thesis
  proof (cases "uniquePrimaryContacts s (matchingContacts db s em ph)")
    case (Cons u others)
    with assms ms have "ult = u \<and> upd = demotions s u others"
      by (auto simp: plan_def)
    with Cons show ?thesis by (intro merge [of others]) simp_all
  next
    case Nil
    show ?thesis
    proof (cases "linkPrecedence oldest = secondary \<and> truthyNum (linkedId oldest)")
      case False
      with assms ms Nil have "ult = oldest \<and> upd = []"
        by (auto simp: plan_def)
      with live Nil ms show ?thesis by (intro fallback) simp_all
    next
      case True
      then obtain l where l: "linkedId oldest = Some l"
        by (cases "linkedId oldest") (simp_all add: truthyNum_def)
      show ?thesis
      proof (cases "findUnique l s")
        case None
        with assms ms Nil True l show ?thesis by (simp add: plan_def)
      next
        case (Some fp)
        with assms ms Nil True l have "ult = fp \<and> upd = []"
          by (auto simp: plan_def)
        with findUnique_Some [OF Some] Nil ms show ?thesis by (intro fallback) simp_all
      qed
    qed
  qed
qed

lemma plan_live:
  assumes "plan db s em ph = Proceed ult upd"
  shows "ult \<in> set (rows s) \<and> deletedAt ult = None"
  using assms
proof (cases rule: plan_cases)
  case (merge others)
  then have "ult \<in> set (uniquePrimaryContacts s (matchingContacts db s em ph))" by simp
  from uniquePrimaryContacts_live [OF this] show ?thesis by simp
next
  case fallback
  then show ?thesis by simp
qed

lemma plan_updates_ids:
  assumes "plan db s em ph = Proceed ult upd"
  shows "idC ` set upd \<subseteq> idC ` set (rows s)"
  using assms
proof (cases rule: plan_cases)
  case (merge others)
  have "set others \<subseteq> set (rows s)"
    using uniquePrimaryContacts_live [of _ s db em ph] merge(1) by auto
  then show ?thesis
    unfolding merge(2) demotions_ids by auto
next
  case fallback
  then show ?thesis by simp
qed

lemma wf_distinct: "wellFormed s \<Longrightarrow> distinct (map idC (rows s))"
  by (simp add: wellFormed_def)

lemma wf_same_id:
  "wellFormed s \<Longrightarrow> c \<in> set (rows s) \<Longrightarrow> c' \<in> set (rows s) \<Longrightarrow> idC c = idC c' \<Longrightarrow> c = c'"
  by (auto simp: wellFormed_def distinct_map inj_on_def)

lemma wf_id_range: "wellFormed s \<Longrightarrow> c \<in> set (rows s) \<Longrightarrow> 0 < idC c \<and> idC c < nextId s"
  by (simp add: wellFormed_def list_all_iff)

lemma wf_primary: "wellFormed s \<Longrightarrow> c \<in> set (rows s) \<Longrightarrow> linkPrecedence c = primary \<Longrightarrow> linkedId c = None"
  by (simp add: wellFormed_def list_all_iff)

lemma wf_secondary:
  assumes "wellFormed s" "c \<in> set (rows s)" "linkPrecedence c = secondary" "deletedAt c = None"
  obtains p where "p \<in> set (rows s)" "linkedId c = Some (idC p)" "linkPrecedence p = primary"
    "deletedAt p = None"
  using assms by (auto simp: wellFormed_def list_all_iff linksToPrimary_def list_ex_iff)

lemma precedence_cases: "linkPrecedence c \<noteq> primary \<longleftrightarrow> linkPrecedence c = secondary"
  by (cases "linkPrecedence c") simp_all

lemma wf_linked_secondary:
  "wellFormed s \<Longrightarrow> c \<in> set (rows s) \<Longrightarrow> linkedId c = Some l \<Longrightarrow> linkPrecedence c = secondary"
  using wf_primary [of s c] by (cases "linkPrecedence c") simp_all

lemma findUnique_wf:
  assumes "wellFormed s" "p \<in> set (rows s)" "deletedAt p = None"
  shows "findUnique (idC p) s = Some p"
proof (cases "findUnique (idC p) s")
  case None
  from findUnique_None [OF None assms(2)] assms(3) show ?thesis by simp
next
  case (Some q)
  from findUnique_Some [OF Some] assms wf_same_id [of s q p] show ?thesis
    using Some by simp
qed

text \<open>The primary a live row resolves to.\<close>

lemma wf_primaryOf:
  assumes wf: "wellFormed s" and c: "c \<in> set (rows s)" "deletedAt c = None"
  obtains p where "primaryOf s c = [p]" "p \<in> set (rows s)" "deletedAt p = None"
    "linkPrecedence p = primary"
    "if linkPrecedence c = primary then p = c else linkedId c = Some (idC p)"
proof (cases "linkPrecedence c = primary")
  case True
  then have "primaryOf s c = [c]" by (simp add: primaryOf_def)
  with True c that show ?thesis by simp
next
  case False
  then have sec: "linkPrecedence c = secondary" by (simp add: precedence_cases)
  from wf_secondary [OF wf c(1) sec c(2)] obtain p where
    p: "p \<in> set (rows s)" "linkedId c = Some (idC p)" "linkPrecedence p = primary"
      "deletedAt p = None" by blast
  have nz: "idC p \<noteq> 0" using wf_id_range [OF wf p(1)] by simp
  have "primaryOf s c = [p]"
    using False p nz findUnique_wf [OF wf p(1) p(4)] by (simp add: primaryOf_def)
  with False p that show ?thesis by simp
qed

lemma wf_plan:
  assumes wf: "wellFormed s" and pl: "plan db s em ph = Proceed ult upd"
  obtains others where
    "uniquePrimaryContacts s (matchingContacts db s em ph) = ult # others"
    "upd = demotions s ult others"
  using pl
proof (cases rule: plan_cases)
  case (merge others)
  with that show ?thesis by blast
next
  case fallback
  then obtain c where c: "c \<in> set (matchingContacts db s em ph)"
    by (cases "matchingContacts db s em ph") auto
  then have live: "c \<in> set (rows s)" "deletedAt c = None"
    by (simp_all add: matching_iff)
  from wf_primaryOf [OF wf live] obtain p where "primaryOf s c = [p]" by blast
  then have "p \<in> set (primaryOf s c)" by simp
  with c have "p \<in> set (collectPrimaries s (matchingContacts db s em ph))"
    unfolding collectPrimaries_set by blast
  then have "idC p \<in> idC ` set (uniquePrimaryContacts s (matchingContacts db s em ph))"
    by (simp add: uniquePrimaryContacts_ids)
  with fallback(1) show ?thesis by simp
qed

lemma wf_ult:
  assumes "wellFormed s" "uniquePrimaryContacts s (matchingContacts db s em ph) = ult # others"
  shows "ult \<in> set (rows s)" "deletedAt ult = None" "linkPrecedence ult = primary"
    "idC ult \<notin> idC ` set (demotions s ult others)"
proof -
  have l: "ult \<in> set (rows s) \<and> deletedAt ult = None \<and> linkPrecedence ult = primary"
    using uniquePrimaryContacts_live [of ult s db em ph] assms(2) by simp
  then show "ult \<in> set (rows s)" "deletedAt ult = None" "linkPrecedence ult = primary"
    by simp_all
  have d: "idC ult \<notin> idC ` set others"
    using uniquePrimaryContacts_distinct [of s "matchingContacts db s em ph"] assms(2) by simp
  have "idC c \<noteq> idC ult" if "c \<in> set (rows s)" "linkedId c \<in> Some ` idC ` set others" for c
  proof
    assume "idC c = idC ult"
    with wf_same_id [OF assms(1) that(1)] l have "c = ult" by simp
    with that(2) wf_primary [OF assms(1)] l show False by auto
  qed
  with d show "idC ult \<notin> idC ` set (demotions s ult others)"
    unfolding demotions_ids by force
qed

lemma wf_updates_uniform:
  assumes wf: "wellFormed s"
    and ups: "uniquePrimaryContacts s (matchingContacts db s em ph) = ult # others"
    and c: "c \<in> set (rows s)" and u: "u \<in> set (demotions s ult others)" and eq: "idC u = idC c"
  shows "email u = email c \<and> phoneNumber u = phoneNumber c \<and> linkedId u = Some (idC ult)
         \<and> linkPrecedence u = secondary"
proof -
  have others: "d \<in> set (rows s)" if "d \<in> set others" for d
    using uniquePrimaryContacts_live [of d s db em ph] ups that by simp
  from u consider (demoted) d where "d \<in> set others"
      "u = d\<lparr>linkedId := Some (idC ult), linkPrecedence := secondary\<rparr>"
    | (relinked) d sec where "d \<in> set others" "sec \<in> set (rows s)"
      "linkedId sec = Some (idC d)" "u = sec\<lparr>linkedId := Some (idC ult)\<rparr>"
    unfolding demotions_set by (auto simp: findMany_iff)
  then show ?thesis
  proof cases
    case demoted
    with eq wf_same_id [OF wf others c, of d] have "d = c" by simp
    with demoted show ?thesis by simp
  next
    case relinked
    with eq wf_same_id [OF wf relinked(2) c] have "sec = c" by simp
    with relinked wf_linked_secondary [OF wf relinked(2,3)] show ?thesis by simp
  qed
qed

lemma relink_fields:
  "idC (relink now pid U c) = idC c" "deletedAt (relink now pid U c) = deletedAt c"
  "createdAt (relink now pid U c) = createdAt c" "email (relink now pid U c) = email c"
  "phoneNumber (relink now pid U c) = phoneNumber c"
  by (simp_all add: relink_def)

lemma relink_out: "idC c \<notin> U \<Longrightarrow> relink now pid U c = c"
  by (simp add: relink_def)

lemma relink_in:
  "idC c \<in> U \<Longrightarrow> linkedId (relink now pid U c) = Some pid \<and> linkPrecedence (relink now pid U c) = secondary"
  by (simp add: relink_def)

lemma relink_wellFormed:
  assumes wf: "wellFormed s"
    and ult: "ult \<in> set (rows s)" "linkPrecedence ult = primary" "deletedAt ult = None"
    and U1: "idC ult \<notin> U"
    and U2: "\<And>c p. c \<in> set (rows s) \<Longrightarrow> p \<in> set (rows s) \<Longrightarrow> deletedAt c = None \<Longrightarrow>
                linkedId c = Some (idC p) \<Longrightarrow> idC p \<in> U \<Longrightarrow> idC c \<in> U"
  shows "wellFormed (s\<lparr>rows := map (relink now (idC ult) U) (rows s)\<rparr>)"
proof -
  let ?g = "relink now (idC ult) U"
  have ids: "map idC (map ?g (rows s)) = map idC (rows s)"
    by (simp add: relink_fields comp_def)
  have d: "distinct (map idC (map ?g (rows s)))"
    unfolding ids by (rule wf_distinct [OF wf])
  have r: "0 < idC (?g c) \<and> idC (?g c) < nextId s" if "c \<in> set (rows s)" for c
    using wf_id_range [OF wf that] by (simp add: relink_fields)
  have p: "linkedId (?g c) = None" if "c \<in> set (rows s)" "linkPrecedence (?g c) = primary" for c
  proof (cases "idC c \<in> U")
    case True
    with that(2) relink_in [OF True, of now "idC ult"] show ?thesis by simp
  next
    case False
    with that wf_primary [OF wf that(1)] show ?thesis by (simp add: relink_out)
  qed
  have ult': "?g ult = ult" using U1 by (simp add: relink_out)
  have l: "linksToPrimary (map ?g (rows s)) (?g c)"
    if c: "c \<in> set (rows s)" and sec: "linkPrecedence (?g c) = secondary"
      and live: "deletedAt (?g c) = None" for c
  proof (cases "idC c \<in> U")
    case True
    have "ult \<in> set (map ?g (rows s))"
      using ult(1) ult' by (metis image_eqI set_map)
    with relink_in [OF True, of now "idC ult"] ult(2,3) show ?thesis
      unfolding linksToPrimary_def list_ex_iff by blast
  next
    case False
    then have same: "?g c = c" by (simp add: relink_out)
    with sec live have "linkPrecedence c = secondary" "deletedAt c = None" by simp_all
    from wf_secondary [OF wf c this] obtain q where
      q: "q \<in> set (rows s)" "linkedId c = Some (idC q)" "linkPrecedence q = primary"
        "deletedAt q = None" by blast
    have "idC q \<notin> U"
      using U2 [OF c q(1) \<open>deletedAt c = None\<close> q(2)] False by blast
    then have "?g q = q" by (simp add: relink_out)
    then have "q \<in> set (map ?g (rows s))"
      using q(1) by (metis image_eqI set_map)
    with q same show ?thesis
      unfolding linksToPrimary_def list_ex_iff by auto
  qed
  show ?thesis
    unfolding wellFormed_def list_all_iff using d r p l wf by (auto simp: wellFormed_def)
qed

lemma wf_nextId: "wellFormed s \<Longrightarrow> 0 < nextId s"
  by (simp add: wellFormed_def)

lemma create_wellFormed:
  assumes wf: "wellFormed s"
    and n: "n = newContact now s e p lid prec"
    and link: "if prec = primary then lid = None
               else \<exists>u\<in>set (rows s). lid = Some (idC u) \<and> linkPrecedence u = primary \<and> deletedAt u = None"
  shows "wellFormed (s\<lparr>rows := rows s @ [n], nextId := nextId s + 1\<rparr>)"
proof -
  have idn: "idC n = nextId s" "linkedId n = lid" "linkPrecedence n = prec"
    by (simp_all add: n newContact_def)
  have "idC n \<notin> idC ` set (rows s)"
    using wf_id_range [OF wf] idn(1) by force
  then have d: "distinct (map idC (rows s @ [n]))"
    using wf_distinct [OF wf] by simp
  have r: "0 < idC c \<and> idC c < nextId s + 1" if "c \<in> set (rows s @ [n])" for c
  proof (cases "c = n")
    case True
    with wf_nextId [OF wf] idn show ?thesis by simp
  next
    case False
    with that wf_id_range [OF wf, of c] show ?thesis by simp
  qed
  have p: "linkedId c = None" if "c \<in> set (rows s @ [n])" "linkPrecedence c = primary" for c
  proof (cases "c = n")
    case True
    with that(2) idn link show ?thesis by simp
  next
    case False
    with that wf_primary [OF wf, of c] show ?thesis by simp
  qed
  have l: "linksToPrimary (rows s @ [n]) c"
    if c: "c \<in> set (rows s @ [n])" and sec: "linkPrecedence c = secondary"
      and live: "deletedAt c = None" for c
  proof (cases "c = n")
    case True
    with sec idn link show ?thesis
      unfolding linksToPrimary_def list_ex_iff by auto
  next
    case False
    with c have "c \<in> set (rows s)" by simp
    from wf_secondary [OF wf this sec live] show ?thesis
      unfolding linksToPrimary_def list_ex_iff by auto
  qed
  show ?thesis
    unfolding wellFormed_def list_all_iff using d r p l wf_nextId [OF wf] by auto
qed

lemma rows_insertRow: "rows (insertRow s n) = rows s @ [n]" "nextId (insertRow s n) = nextId s + 1"
  by (simp_all add: insertRow_def)

lemma newSecondary_fields:
  "idC (newSecondary now s em ph ult) = nextId s"
  "email (newSecondary now s em ph ult) = orNull em"
  "phoneNumber (newSecondary now s em ph ult) = orNull ph"
  "linkedId (newSecondary now s em ph ult) = Some (idC ult)"
  "linkPrecedence (newSecondary now s em ph ult) = secondary"
  "deletedAt (newSecondary now s em ph ult) = None"
  "createdAt (newSecondary now s em ph ult) = now"
  by (simp_all add: newSecondary_def newContact_def)

lemma mergeReady_plan:
  assumes wf: "wellFormed s" and pl: "plan db s em ph = Proceed ult upd"
  shows "mergeReady s ult upd"
proof -
  from wf_plan [OF wf pl] obtain others where
    ups: "uniquePrimaryContacts s (matchingContacts db s em ph) = ult # others"
    and upd: "upd = demotions s ult others" by blast
  note u = wf_ult [OF wf ups]
  have others: "d \<in> set (rows s) \<and> linkPrecedence d = primary" if "d \<in> set others" for d
    using uniquePrimaryContacts_live [of d s db em ph] ups that by simp
  have closure: "idC c \<in> idC ` set upd"
    if c: "c \<in> set (rows s)" and p: "p \<in> set (rows s)" and live: "deletedAt c = None"
      and link: "linkedId c = Some (idC p)" and pin: "idC p \<in> idC ` set upd" for c p
  proof -
    have sec: "linkPrecedence c = secondary"
      by (rule wf_linked_secondary [OF wf c link])
    from wf_secondary [OF wf c sec live] obtain q where
      q: "q \<in> set (rows s)" "linkedId c = Some (idC q)" "linkPrecedence q = primary" by blast
    from link q(2) have "idC p = idC q" by simp
    then have "p = q" by (rule wf_same_id [OF wf p q(1)])
    with q(3) have "linkPrecedence p = primary" by simp
    then have lp: "linkedId p = None" by (rule wf_primary [OF wf p])
    from pin consider d where "d \<in> set others" "idC p = idC d"
      | c' where "c' \<in> set (rows s)" "linkedId c' \<in> Some ` idC ` set others" "idC p = idC c'"
      unfolding upd demotions_ids by auto
    then have "idC p \<in> idC ` set others"
    proof cases
      case 1
      then show ?thesis by auto
    next
      case 2
      from wf_same_id [OF wf p 2(1) 2(3)] have "p = c'" .
      with 2(2) lp show ?thesis by auto
    qed
    with c live link show ?thesis
      unfolding upd demotions_ids by auto
  qed
  have A: "\<forall>c\<in>set (rows s). \<forall>u\<in>set upd. idC u = idC c \<longrightarrow>
           email u = email c \<and> phoneNumber u = phoneNumber c \<and> linkedId u = Some (idC ult)
           \<and> linkPrecedence u = secondary"
    using wf_updates_uniform [OF wf ups] unfolding upd by blast
  have B: "\<forall>c\<in>set (rows s). \<forall>p\<in>set (rows s).
           deletedAt c = None \<and> linkedId c = Some (idC p) \<and> idC p \<in> idC ` set upd
           \<longrightarrow> idC c \<in> idC ` set upd"
    using closure by blast
  have C: "idC ult \<notin> idC ` set upd" using u(4) unfolding upd .
  show ?thesis
    unfolding mergeReady_def
    using wf u(1,2,3) C plan_updates_ids [OF pl] A B by blast
qed

lemma mergeReady_create:
  assumes mr: "mergeReady s ult us" and n: "n = newSecondary now s em ph ult"
  shows "mergeReady (insertRow s n) ult (us @ [n])"
proof -
  from mr have wf: "wellFormed s" and ult: "ult \<in> set (rows s)" "linkPrecedence ult = primary"
      "deletedAt ult = None" and U1: "idC ult \<notin> idC ` set us"
    and sub: "idC ` set us \<subseteq> idC ` set (rows s)"
    and uni: "\<And>c u. c \<in> set (rows s) \<Longrightarrow> u \<in> set us \<Longrightarrow> idC u = idC c \<Longrightarrow>
           email u = email c \<and> phoneNumber u = phoneNumber c \<and> linkedId u = Some (idC ult)
           \<and> linkPrecedence u = secondary"
    and clo: "\<And>c p. c \<in> set (rows s) \<Longrightarrow> p \<in> set (rows s) \<Longrightarrow> deletedAt c = None \<Longrightarrow>
           linkedId c = Some (idC p) \<Longrightarrow> idC p \<in> idC ` set us \<Longrightarrow> idC c \<in> idC ` set us"
    unfolding mergeReady_def by blast+
  have idn: "idC n = nextId s" by (simp add: n newSecondary_fields)
  have fresh: "idC c \<noteq> nextId s" if "c \<in> set (rows s)" for c
    using wf_id_range [OF wf that] by simp
  have fresh_us: "idC u \<noteq> nextId s" if "u \<in> set us" for u
    using sub that fresh by (metis image_eqI subsetD imageE)
  have wf': "wellFormed (insertRow s n)"
    unfolding insertRow_def
    by (rule create_wellFormed [OF wf, where lid = "Some (idC ult)" and prec = secondary])
       (use ult in \<open>auto simp: n newSecondary_def\<close>)
  have uni': "email u = email c \<and> phoneNumber u = phoneNumber c \<and> linkedId u = Some (idC ult)
           \<and> linkPrecedence u = secondary"
    if "c \<in> set (rows s @ [n])" "u \<in> set (us @ [n])" "idC u = idC c" for c u
  proof (cases "u = n")
    case True
    with that idn fresh have "c = n" by auto
    with True show ?thesis by (simp add: n newSecondary_fields)
  next
    case False
    with that have u: "u \<in> set us" by simp
    with that fresh_us idn have "c \<in> set (rows s)" by auto
    from uni [OF this u that(3)] show ?thesis .
  qed
  have clo': "idC c \<in> idC ` set (us @ [n])"
    if c: "c \<in> set (rows s @ [n])" and p: "p \<in> set (rows s @ [n])" and live: "deletedAt c = None"
      and link: "linkedId c = Some (idC p)" and pin: "idC p \<in> idC ` set (us @ [n])" for c p
  proof (cases "c = n")
    case True
    then show ?thesis by simp
  next
    case False
    with c have c': "c \<in> set (rows s)" by simp
    have sec: "linkPrecedence c = secondary"
      by (rule wf_linked_secondary [OF wf c' link])
    from wf_secondary [OF wf c' sec live] obtain q where
      q: "q \<in> set (rows s)" "linkedId c = Some (idC q)" by blast
    with link fresh idn have "p \<noteq> n" by auto
    with p have p': "p \<in> set (rows s)" by simp
    with pin fresh idn have "idC p \<in> idC ` set us" by auto
    from clo [OF c' p' live link this] show ?thesis by auto
  qed
  have A: "\<forall>c\<in>set (rows s @ [n]). \<forall>u\<in>set (us @ [n]). idC u = idC c \<longrightarrow>
           email u = email c \<and> phoneNumber u = phoneNumber c \<and> linkedId u = Some (idC ult)
           \<and> linkPrecedence u = secondary"
    using uni' by blast
  have B: "\<forall>c\<in>set (rows s @ [n]). \<forall>p\<in>set (rows s @ [n]).
           deletedAt c = None \<and> linkedId c = Some (idC p) \<and> idC p \<in> idC ` set (us @ [n])
           \<longrightarrow> idC c \<in> idC ` set (us @ [n])"
    using clo' by blast
  have C: "idC ult \<notin> idC ` set (us @ [n])"
    using U1 fresh [OF ult(1)] idn by auto
  have D: "idC ` set (us @ [n]) \<subseteq> idC ` set (rows s @ [n])"
    using sub by auto
  have E: "ult \<in> set (rows s @ [n])" using ult(1) by simp
  show ?thesis
    unfolding mergeReady_def rows_insertRow
    using wf' E ult(2,3) C D A B by blast
qed

lemma readBack_NoFault [simp]: "readBack db NoFault s ult = (Inr (respond db s ult), s)"
  by (simp add: readBack_def)

lemma snd_readBack [simp]: "snd (readBack db f s ult) = s"
  by (simp add: readBack_def)

text \<open>When the transaction does not fail, every update is written before the read-back.\<close>

lemma applyUpdates_commit:
  assumes "f \<noteq> TransactionFails" "idC ` set us \<subseteq> idC ` set (rows s)"
  shows "applyUpdates meanwhile db f now us s ult =
           readBack db f (meanwhile (s\<lparr>rows := map (applyRow now us) (rows s)\<rparr>)) ult"
proof (cases "us = []")
  case True
  have "map (applyRow now []) (rows s) = rows s"
    by (rule map_idI) (simp add: applyRow_Nil)
  with True show ?thesis by (simp add: applyUpdates_def)
next
  case False
  with updateAll_applyRow [OF assms(2), of now] assms(1) show ?thesis
    by (simp add: applyUpdates_def transaction_def)
qed

lemma applyUpdates_ok:
  assumes "idC ` set us \<subseteq> idC ` set (rows s)"
  shows "applyUpdates (\<lambda>t. t) db NoFault now us s ult =
           (Inr (respond db (s\<lparr>rows := map (applyRow now us) (rows s)\<rparr>) ult),
            s\<lparr>rows := map (applyRow now us) (rows s)\<rparr>)"
  using applyUpdates_commit [OF _ assms, of NoFault "\<lambda>t. t" db now ult] by simp

lemma applyUpdates_fails:
  "applyUpdates (\<lambda>t. t) db TransactionFails now us s ult =
     (if us = [] then (Inr (respond db s ult), s) else (Inl TransactionError, s))"
  by (simp add: applyUpdates_def readBack_def transaction_def)

lemma relinked_Nil: "relinked now ult [] s = s"
proof -
  have "map (relink now (idC ult) {}) (rows s) = rows s"
    by (rule map_idI) (simp add: relink_def)
  then show ?thesis by (simp add: relinked_def)
qed

lemma mergeReady_apply:
  assumes mr: "mergeReady s ult us" and f: "f \<noteq> TransactionFails"
  shows "applyUpdates (\<lambda>t. t) db f now us s ult = readBack db f (relinked now ult us s) ult"
proof -
  from mr have sub: "idC ` set us \<subseteq> idC ` set (rows s)"
    and uni: "\<forall>c\<in>set (rows s). \<forall>u\<in>set us. idC u = idC c \<longrightarrow>
           email u = email c \<and> phoneNumber u = phoneNumber c \<and> linkedId u = Some (idC ult)
           \<and> linkPrecedence u = secondary"
    unfolding mergeReady_def by blast+
  have "map (applyRow now us) (rows s) = map (relink now (idC ult) (idC ` set us)) (rows s)"
    using uni by (intro map_cong refl applyRow_uniform) blast
  with applyUpdates_commit [OF f sub, of "\<lambda>t. t" db now ult] show ?thesis
    by (simp add: relinked_def)
qed

lemma mergeReady_wellFormed:
  assumes mr: "mergeReady s ult us"
  shows "wellFormed (relinked now ult us s)"
proof -
  from mr have wf: "wellFormed s" and ult: "ult \<in> set (rows s)" "linkPrecedence ult = primary"
      "deletedAt ult = None" and U1: "idC ult \<notin> idC ` set us"
    and clo: "\<And>c p. c \<in> set (rows s) \<Longrightarrow> p \<in> set (rows s) \<Longrightarrow> deletedAt c = None \<Longrightarrow>
           linkedId c = Some (idC p) \<Longrightarrow> idC p \<in> idC ` set us \<Longrightarrow> idC c \<in> idC ` set us"
    unfolding mergeReady_def by blast+
  show ?thesis
    unfolding relinked_def by (rule relink_wellFormed [OF wf ult U1 clo])
qed

lemma mergeReady_ult:
  assumes mr: "mergeReady s ult us"
  shows "ult \<in> set (rows (relinked now ult us s))"
proof -
  from mr have "ult \<in> set (rows s)" "idC ult \<notin> idC ` set us"
    unfolding mergeReady_def by blast+
  then have "relink now (idC ult) (idC ` set us) ult = ult" "ult \<in> set (rows s)"
    by (simp_all add: relink_out)
  then show ?thesis
    unfolding relinked_def by (metis Store.select_convs(1) Store.surjective Store.update_convs(1) image_eqI set_map)
qed

text \<open>What a call leaves in a well-formed store, for every fault.\<close>

lemma identify_outcome:
  assumes wf: "wellFormed s"
  obtains (unchanged) "snd (identifyContact db f now s em ph) = s"
    | (inserted) n where "snd (identifyContact db f now s em ph) = insertRow s n"
        "wellFormed (insertRow s n)"
    | (merged) ult us s1 where "mergeReady s1 ult us" "s1 = s \<or> (\<exists>n. s1 = insertRow s n)"
        "snd (identifyContact db f now s em ph) = relinked now ult us s1"
proof (cases "f = ReadFails")
  case True
  then have "snd (identifyContact db f now s em ph) = s"
    by (simp add: identifyContact_def identifyContactAmid_def)
  then show ?thesis by (rule unchanged)
next
  case nr: False
  show ?thesis
  proof (cases "plan db s em ph")
    case CreatePrimary
    show ?thesis
    proof (cases "f = CreateFails")
      case True
      with CreatePrimary have "snd (identifyContact db f now s em ph) = s"
        by (simp add: identifyContact_def identifyContactAmid_def createPrimary_def create_def)
      then show ?thesis by (rule unchanged)
    next
      case False
      let ?n = "newContact now s (orNull em) (orNull ph) None primary"
      from False nr CreatePrimary have "snd (identifyContact db f now s em ph) = insertRow s ?n"
        by (simp add: identifyContact_def identifyContactAmid_def createPrimary_def create_def
            insertRow_def)
      moreover have "wellFormed (insertRow s ?n)"
        unfolding insertRow_def by (rule create_wellFormed [OF wf refl]) simp
      ultimately show ?thesis by (rule inserted)
    qed
  next
    case (Proceed ult upd)
    note mr = mergeReady_plan [OF wf Proceed]
    let ?n = "newSecondary now s em ph ult"
    note mr' = mergeReady_create [OF mr refl, of now em ph]
    show ?thesis
    proof (cases "createsSecondary (allRelatedContacts s ult upd) em ph")
      case False
      then have eq: "identifyContact db f now s em ph = applyUpdates (\<lambda>t. t) db f now upd s ult"
        using Proceed nr by (simp add: identifyContact_def identifyContactAmid_def)
      show ?thesis
      proof (cases "f = TransactionFails")
        case True
        with eq have "snd (identifyContact db f now s em ph) = s"
          by (simp add: applyUpdates_fails)
        then show ?thesis by (rule unchanged)
      next
        case False
        from mergeReady_apply [OF mr False, of db now] have
          "snd (identifyContact db f now s em ph) = relinked now ult upd s"
          by (simp add: eq)
        with mr show ?thesis by (intro merged [of s ult upd]) simp_all
      qed
    next
      case True
      show ?thesis
      proof (cases "f = CreateFails")
        case cf: True
        with True Proceed have "snd (identifyContact db f now s em ph) = s"
          by (simp add: identifyContact_def identifyContactAmid_def create_def)
        then show ?thesis by (rule unchanged)
      next
        case cf: False
        with True Proceed nr have eq:
          "identifyContact db f now s em ph
             = applyUpdates (\<lambda>t. t) db f now (upd @ [?n]) (insertRow s ?n) ult"
          by (simp add: identifyContact_def identifyContactAmid_def create_def insertRow_def
              newSecondary_def)
        show ?thesis
        proof (cases "f = TransactionFails")
          case True
          with eq have "snd (identifyContact db f now s em ph) = insertRow s ?n"
            by (simp add: applyUpdates_fails)
          moreover from mr' have "wellFormed (insertRow s ?n)"
            unfolding mergeReady_def by blast
          ultimately show ?thesis by (rule inserted)
        next
          case False
          from mergeReady_apply [OF mr' False, of db now] have
            "snd (identifyContact db f now s em ph)
               = relinked now ult (upd @ [?n]) (insertRow s ?n)"
            by (simp add: eq)
          with mr' show ?thesis by (intro merged [of "insertRow s ?n" ult "upd @ [?n]"]) auto
        qed
      qed
    qed
  qed
qed

lemma formatResponse_id: "primaryContatctId (contact (formatResponse p cs)) = idC p"
  by (simp add: formatResponse_def split: prod.splits)

lemma finalGroup_iff:
  "c \<in> set (finalGroupContacts db s ult) \<longleftrightarrow>
     c \<in> set (rows s) \<and> deletedAt c = None \<and> (idC c = idC ult \<or> linkedId c = Some (idC ult))"
  by (auto simp: finalGroupContacts_def orderByCreatedAt_def findMany_iff clusterWhere_def)

lemma respond_primary_id:
  assumes "ult \<in> set (rows s)" "deletedAt ult = None" "linkPrecedence ult = primary"
  shows "primaryContatctId (contact (respond db s ult)) = idC ult"
proof -
  let ?P = "\<lambda>c. idC c = idC ult \<and> linkPrecedence c = primary"
  have "ult \<in> set (finalGroupContacts db s ult)"
    using assms by (simp add: finalGroup_iff)
  with assms(3) have "find ?P (finalGroupContacts db s ult) \<noteq> None"
    unfolding find_None_iff by blast
  then obtain x where x: "find ?P (finalGroupContacts db s ult) = Some x" by blast
  then have "idC x = idC ult" unfolding find_Some_iff by blast
  with x show ?thesis
    by (simp add: respond_def primaryInFinalGroup_def formatResponse_id)
qed

lemma wf_resolved_nonempty:
  assumes wf: "wellFormed s" and m: "matchingContacts db s em ph \<noteq> []"
  shows "uniquePrimaryContacts s (matchingContacts db s em ph) \<noteq> []"
proof -
  from m obtain c where c: "c \<in> set (matchingContacts db s em ph)"
    by (cases "matchingContacts db s em ph") auto
  then have live: "c \<in> set (rows s)" "deletedAt c = None"
    by (simp_all add: matching_iff)
  from wf_primaryOf [OF wf live] obtain p where "primaryOf s c = [p]" by blast
  then have "p \<in> set (primaryOf s c)" by simp
  with c have "p \<in> set (collectPrimaries s (matchingContacts db s em ph))"
    unfolding collectPrimaries_set by blast
  then have "idC p \<in> idC ` set (uniquePrimaryContacts s (matchingContacts db s em ph))"
    by (simp add: uniquePrimaryContacts_ids)
  then show ?thesis by auto
qed

lemma wf_plan_Proceed:
  assumes wf: "wellFormed s" and m: "matchingContacts db s em ph \<noteq> []"
  obtains ult others where
    "uniquePrimaryContacts s (matchingContacts db s em ph) = ult # others"
    "plan db s em ph = Proceed ult (demotions s ult others)"
proof -
  from wf_resolved_nonempty [OF wf m] obtain ult others where
    ups: "uniquePrimaryContacts s (matchingContacts db s em ph) = ult # others"
    by (cases "uniquePrimaryContacts s (matchingContacts db s em ph)") auto
  from m obtain o' rest where ms: "matchingContacts db s em ph = o' # rest"
    by (cases "matchingContacts db s em ph") auto
  from ups ms have "plan db s em ph = Proceed ult (demotions s ult others)"
    by (simp add: plan_def)
  with ups that show ?thesis by blast
qed

lemma identify_merged:
  assumes wf: "wellFormed s" and pl: "plan db s em ph = Proceed ult upd"
  obtains us s1 where "mergeReady s1 ult us" "set (rows s) \<subseteq> set (rows s1)"
    "idC ` set upd \<subseteq> idC ` set us"
    "identifyContact db NoFault now s em ph =
       (Inr (respond db (relinked now ult us s1) ult), relinked now ult us s1)"
proof (cases "createsSecondary (allRelatedContacts s ult upd) em ph")
  case False
  note mr = mergeReady_plan [OF wf pl]
  from False pl have "identifyContact db NoFault now s em ph = applyUpdates (\<lambda>t. t) db NoFault now upd s ult"
    by (simp add: identifyContact_def identifyContactAmid_def)
  with mergeReady_apply [OF mr, of NoFault db now] have
    "identifyContact db NoFault now s em ph =
       (Inr (respond db (relinked now ult upd s) ult), relinked now ult upd s)" by simp
  with mr show ?thesis by (intro that [of s upd]) simp_all
next
  case True
  let ?n = "newSecondary now s em ph ult"
  note mr = mergeReady_create [OF mergeReady_plan [OF wf pl] refl, of now em ph]
  from True pl have
    "identifyContact db NoFault now s em ph
       = applyUpdates (\<lambda>t. t) db NoFault now (upd @ [?n]) (insertRow s ?n) ult"
    by (simp add: identifyContact_def identifyContactAmid_def create_def insertRow_def newSecondary_def)
  with mergeReady_apply [OF mr, of NoFault db now] have
    "identifyContact db NoFault now s em ph =
       (Inr (respond db (relinked now ult (upd @ [?n]) (insertRow s ?n)) ult),
        relinked now ult (upd @ [?n]) (insertRow s ?n))" by simp
  with mr show ?thesis
    by (intro that [of "insertRow s ?n" "upd @ [?n]"]) (auto simp: rows_insertRow)
qed

lemma plan_succeeds:
  assumes pl: "plan db s em ph = Proceed ult upd"
  obtains us s1 where
    "identifyContact db NoFault now s em ph =
       (Inr (respond db (s1\<lparr>rows := map (applyRow now us) (rows s1)\<rparr>) ult),
        s1\<lparr>rows := map (applyRow now us) (rows s1)\<rparr>)"
    "ult \<in> set (rows s1)"
proof (cases "createsSecondary (allRelatedContacts s ult upd) em ph")
  case False
  with pl have "identifyContact db NoFault now s em ph = applyUpdates (\<lambda>t. t) db NoFault now upd s ult"
    by (simp add: identifyContact_def identifyContactAmid_def)
  with applyUpdates_ok [where now = now and ult = ult, OF plan_updates_ids [OF pl]] plan_live [OF pl]
  show ?thesis by (intro that [of upd s]) simp_all
next
  case True
  let ?n = "newSecondary now s em ph ult"
  have sub: "idC ` set (upd @ [?n]) \<subseteq> idC ` set (rows (insertRow s ?n))"
    using plan_updates_ids [OF pl] by (auto simp: rows_insertRow)
  from True pl have
    "identifyContact db NoFault now s em ph
       = applyUpdates (\<lambda>t. t) db NoFault now (upd @ [?n]) (insertRow s ?n) ult"
    by (simp add: identifyContact_def identifyContactAmid_def create_def insertRow_def newSecondary_def)
  with applyUpdates_ok [where now = now and ult = ult, OF sub] plan_live [OF pl]
  show ?thesis by (intro that [of "upd @ [?n]" "insertRow s ?n"]) (simp_all add: rows_insertRow)
qed

lemma deletedAt_applyRow: "deletedAt (applyRow now us c) = deletedAt c"
  by (induction us arbitrary: c) (simp_all add: applyRow_Nil applyRow_Cons writeFields_def)

lemma find_SomeD: "find P xs = Some x \<Longrightarrow> P x \<and> x \<in> set xs"
  by (induction xs) (auto split: if_splits)

lemma primaryInFinalGroup_mem:
  assumes "fg \<noteq> []"
  shows "primaryInFinalGroup ult fg \<in> set fg"
proof (cases "find (\<lambda>c. idC c = idC ult \<and> linkPrecedence c = primary) fg")
  case (Some p)
  with find_SomeD [OF Some] show ?thesis by (simp add: primaryInFinalGroup_def)
next
  case None
  show ?thesis
  proof (cases "find (\<lambda>c. linkPrecedence c = primary) fg")
    case (Some p)
    with None find_SomeD [OF Some] show ?thesis by (simp add: primaryInFinalGroup_def)
  next
    case n: None
    with None assms show ?thesis by (cases fg) (simp_all add: primaryInFinalGroup_def)
  qed
qed

lemma primaryInFinalGroup_eq:
  "fg \<noteq> [] \<Longrightarrow> primaryInFinalGroup ult fg =
     (case find (\<lambda>c. idC c = idC ult \<and> linkPrecedence c = primary) fg of
        Some p \<Rightarrow> p
      | None \<Rightarrow> (case find (\<lambda>c. linkPrecedence c = primary) fg of
                   Some p \<Rightarrow> p | None \<Rightarrow> hd fg))"
  by (cases fg) (simp_all add: primaryInFinalGroup_def split: option.splits)

text \<open>
  When the reads settle on an ultimate primary and neither the reads nor the writes fail,
  the call commits its writes and then reads back, whatever other clients do in between.
\<close>

lemma identify_commit:
  assumes pl: "plan db s em ph = Proceed ult upd"
  obtains us s1 where
    "\<And>f meanwhile. f \<noteq> ReadFails \<Longrightarrow> f \<noteq> CreateFails \<Longrightarrow> f \<noteq> TransactionFails \<Longrightarrow>
       identifyContactAmid meanwhile db f now s em ph =
         readBack db f (meanwhile (s1\<lparr>rows := map (applyRow now us) (rows s1)\<rparr>)) ult"
    "ult \<in> set (rows s1)"
proof (cases "createsSecondary (allRelatedContacts s ult upd) em ph")
  case False
  have "identifyContactAmid meanwhile db f now s em ph =
          readBack db f (meanwhile (s\<lparr>rows := map (applyRow now upd) (rows s)\<rparr>)) ult"
    if f: "f \<noteq> ReadFails" "f \<noteq> CreateFails" "f \<noteq> TransactionFails" for f meanwhile
  proof -
    from False pl f(1) have "identifyContactAmid meanwhile db f now s em ph
        = applyUpdates meanwhile db f now upd s ult"
      by (simp add: identifyContactAmid_def)
    with applyUpdates_commit [OF f(3) plan_updates_ids [OF pl], of meanwhile db now ult]
    show ?thesis by simp
  qed
  with plan_live [OF pl] show ?thesis by (intro that [of upd s]) simp_all
next
  case True
  let ?n = "newSecondary now s em ph ult"
  have sub: "idC ` set (upd @ [?n]) \<subseteq> idC ` set (rows (insertRow s ?n))"
    using plan_updates_ids [OF pl] by (auto simp: rows_insertRow)
  have "identifyContactAmid meanwhile db f now s em ph =
          readBack db f
            (meanwhile ((insertRow s ?n)\<lparr>rows := map (applyRow now (upd @ [?n]))
                                                      (rows (insertRow s ?n))\<rparr>)) ult"
    if f: "f \<noteq> ReadFails" "f \<noteq> CreateFails" "f \<noteq> TransactionFails" for f meanwhile
  proof -
    from True pl f(1,2) have
      "identifyContactAmid meanwhile db f now s em ph
         = applyUpdates meanwhile db f now (upd @ [?n]) (insertRow s ?n) ult"
      by (simp add: identifyContactAmid_def create_def insertRow_def newSecondary_def)
    with applyUpdates_commit [OF f(3) sub, of meanwhile db now ult]
    show ?thesis by simp
  qed
  with plan_live [OF pl] show ?thesis
    by (intro that [of "upd @ [?n]" "insertRow s ?n"]) (simp_all add: rows_insertRow)
qed

lemma find_sorted_least:
  assumes "sorted (map f xs)" "find P xs = Some p" "c \<in> set xs" "P c"
  shows "f p \<le> f c"
  using assms
proof (induction xs)
  case Nil
  then show ?case by simp
next
  case (Cons x xs)
  show ?case
  proof (cases "P x")
    case True
    with Cons.prems have "p = x" by simp
    with Cons.prems(1,3) show ?thesis by auto
  next
    case False
    with Cons.prems have "find P xs = Some p" "c \<in> set xs" "sorted (map f xs)" by auto
    with Cons.IH Cons.prems(4) show ?thesis by blast
  qed
qed

lemma finalGroup_sorted: "sorted (map createdAt (finalGroupContacts db s ult))"
  by (simp add: finalGroupContacts_def orderByCreatedAt_def)

text \<open>Which contact the response is built around, for every table that the read-back finds.\<close>

lemma primaryInFinalGroup_cases:
  assumes srt: "sorted (map createdAt fg)"
  shows "(\<exists>c\<in>set fg. idC c = idC ult \<and> linkPrecedence c = primary)
           \<Longrightarrow> idC (primaryInFinalGroup ult fg) = idC ult"
    and "\<not> (\<exists>c\<in>set fg. idC c = idC ult \<and> linkPrecedence c = primary)
           \<Longrightarrow> \<exists>c\<in>set fg. linkPrecedence c = primary
           \<Longrightarrow> primaryInFinalGroup ult fg \<in> set fg
               \<and> linkPrecedence (primaryInFinalGroup ult fg) = primary
               \<and> (\<forall>c\<in>set fg. linkPrecedence c = primary
                      \<longrightarrow> createdAt (primaryInFinalGroup ult fg) \<le> createdAt c)"
    and "fg \<noteq> [] \<Longrightarrow> \<forall>c\<in>set fg. linkPrecedence c \<noteq> primary
           \<Longrightarrow> primaryInFinalGroup ult fg \<in> set fg
               \<and> (\<forall>c\<in>set fg. createdAt (primaryInFinalGroup ult fg) \<le> createdAt c)"
    and "fg = [] \<Longrightarrow> primaryInFinalGroup ult fg = ult"
proof -
  let ?P = "\<lambda>c. idC c = idC ult \<and> linkPrecedence c = primary"
  let ?Q = "\<lambda>c. linkPrecedence c = primary"
  show "idC (primaryInFinalGroup ult fg) = idC ult" if "\<exists>c\<in>set fg. ?P c"
  proof -
    from that have "find ?P fg \<noteq> None" unfolding find_None_iff by blast
    then obtain x where x: "find ?P fg = Some x" by blast
    with find_SomeD [OF x] show ?thesis by (simp add: primaryInFinalGroup_def)
  qed
  show "primaryInFinalGroup ult fg \<in> set fg
          \<and> linkPrecedence (primaryInFinalGroup ult fg) = primary
          \<and> (\<forall>c\<in>set fg. linkPrecedence c = primary
                 \<longrightarrow> createdAt (primaryInFinalGroup ult fg) \<le> createdAt c)"
    if n: "\<not> (\<exists>c\<in>set fg. ?P c)" and e: "\<exists>c\<in>set fg. ?Q c"
  proof -
    from n have none: "find ?P fg = None" unfolding find_None_iff by blast
    from e have "find ?Q fg \<noteq> None" unfolding find_None_iff by blast
    then obtain x where x: "find ?Q fg = Some x" by blast
    from none x have eq: "primaryInFinalGroup ult fg = x" by (simp add: primaryInFinalGroup_def)
    from find_SomeD [OF x] find_sorted_least [OF srt x] show ?thesis
      unfolding eq by blast
  qed
  show "primaryInFinalGroup ult fg \<in> set fg
          \<and> (\<forall>c\<in>set fg. createdAt (primaryInFinalGroup ult fg) \<le> createdAt c)"
    if ne: "fg \<noteq> []" and n: "\<forall>c\<in>set fg. linkPrecedence c \<noteq> primary"
  proof -
    from n have none: "find ?P fg = None" "find ?Q fg = None"
      unfolding find_None_iff by blast+
    from ne obtain x rest where fg: "fg = x # rest" by (cases fg) auto
    with none have eq: "primaryInFinalGroup ult fg = x" by (simp add: primaryInFinalGroup_def)
    from srt fg have "\<forall>c\<in>set fg. createdAt x \<le> createdAt c" by auto
    with eq fg show ?thesis by simp
  qed
  show "primaryInFinalGroup ult fg = ult" if "fg = []"
    using that by (simp add: primaryInFinalGroup_def)
qed

lemma identify_success_NoFault:
  assumes "identifyContact db f now s em ph = (Inr r, s')"
  shows "identifyContact db NoFault now s em ph = (Inr r, s')"
proof -
  have cr: "create NoFault now s e p l prec = create f now s e p l prec"
    if "f \<noteq> CreateFails" for e p l prec
    using that by (simp add: create_def)
  have ap: "applyUpdates (\<lambda>t. t) db NoFault now us s1 ult = (Inr r, s')"
    if "applyUpdates (\<lambda>t. t) db f now us s1 ult = (Inr r, s')" for us s1 ult
  proof -
    from that have nb: "f \<noteq> ReadBackFails"
      by (auto simp: applyUpdates_def readBack_def split: if_splits sum.splits)
    show ?thesis
    proof (cases "f = TransactionFails")
      case True
      with that show ?thesis
        by (cases "us = []") (auto simp: applyUpdates_def readBack_def transaction_def)
    next
      case False
      with nb have "applyUpdates (\<lambda>t. t) db f now us s1 ult
                     = applyUpdates (\<lambda>t. t) db NoFault now us s1 ult"
        by (auto simp: applyUpdates_def readBack_def transaction_def split: sum.splits)
      with that show ?thesis by simp
    qed
  qed
  from assms have nr: "f \<noteq> ReadFails"
    by (auto simp: identifyContact_def identifyContactAmid_def)
  show ?thesis
  proof (cases "plan db s em ph")
    case CreatePrimary
    with assms nr have "f \<noteq> CreateFails"
      by (auto simp: identifyContact_def identifyContactAmid_def createPrimary_def create_def)
    with assms nr CreatePrimary show ?thesis
      by (simp add: identifyContact_def identifyContactAmid_def createPrimary_def cr)
  next
    case (Proceed ult upd)
    show ?thesis
    proof (cases "createsSecondary (allRelatedContacts s ult upd) em ph")
      case False
      with assms nr Proceed ap show ?thesis
        by (simp add: identifyContact_def identifyContactAmid_def)
    next
      case True
      with assms nr Proceed have nf: "f \<noteq> CreateFails"
        by (auto simp: identifyContact_def identifyContactAmid_def create_def)
      with assms nr Proceed True ap show ?thesis
        by (simp add: identifyContact_def identifyContactAmid_def create_def)
    qed
  qed
qed

lemma formatResponse_Nil:
  "formatResponse c [] =
     \<lparr>contact = \<lparr>primaryContatctId = idC c, emails = optList (email c),
                  phoneNumbers = optList (phoneNumber c), secondaryContactIds = []\<rparr>\<rparr>"
proof -
  have a: "addStr [] v = optList v" for v
    by (cases v) (simp_all add: addStr_def optList_def setAdd_def)
  have f: "filter (\<lambda>e. Some e \<noteq> v) (optList v) = []" for v
    by (cases v) (simp_all add: optList_def)
  have n: "newSet (optList v) = optList v" for v
    by (cases v) (simp_all add: optList_def newSet_def setAdd_def)
  show ?thesis
    by (simp add: formatResponse_def a f n)
qed

lemma finalGroup_nonempty:
  assumes pl: "plan db s em ph = Proceed ult upd" and ult: "ult \<in> set (rows s1)"
  shows "finalGroupContacts db (s1\<lparr>rows := map (applyRow now us) (rows s1)\<rparr>) ult \<noteq> []"
proof -
  let ?s' = "s1\<lparr>rows := map (applyRow now us) (rows s1)\<rparr>"
  have live: "deletedAt ult = None" using plan_live [OF pl] by simp
  have "applyRow now us ult \<in> set (rows ?s')" using ult by simp
  then have "applyRow now us ult \<in> set (finalGroupContacts db ?s' ult)"
    by (simp add: finalGroup_iff idC_applyRow deletedAt_applyRow live del: set_map)
  then show ?thesis by auto
qed

lemma respond_mem:
  assumes "finalGroupContacts db s ult \<noteq> []"
  shows "primaryContatctId (contact (respond db s ult)) \<in> idC ` set (rows s)"
proof -
  from primaryInFinalGroup_mem [OF assms, of ult]
  have "primaryInFinalGroup ult (finalGroupContacts db s ult) \<in> set (rows s)"
    by (simp add: finalGroup_iff)
  then show ?thesis
    by (simp add: respond_def formatResponse_id)
qed

lemma collectPrimaries_Nil:
  assumes "\<forall>c\<in>set ms. primaryOf s c = []"
  shows "collectPrimaries s ms = []"
  using assms by (induction ms) simp_all

lemma set_foldl_setAdd: "set (foldl setAdd xs ys) = set xs \<union> set ys"
  by (induction ys arbitrary: xs) (auto simp: setAdd_def)

lemma distinct_foldl_setAdd: "distinct xs \<Longrightarrow> distinct (foldl setAdd xs ys)"
  by (induction ys arbitrary: xs) (auto simp: setAdd_def)

lemma foldl_setAdd_distinct: "distinct (xs @ ys) \<Longrightarrow> foldl setAdd xs ys = xs @ ys"
  by (induction ys arbitrary: xs) (auto simp: setAdd_def)

lemma newSet_distinct: "distinct xs \<Longrightarrow> newSet xs = xs"
  using foldl_setAdd_distinct [of "[]" xs] by (simp add: newSet_def)

lemma set_optList: "set (optList v) = {e. e \<noteq> [] \<and> v = Some e}"
  by (cases v) (auto simp: optList_def)

lemma distinct_optList: "distinct (optList v)"
  by (cases v) (auto simp: optList_def)

lemma set_addStr: "set (addStr xs v) = set xs \<union> set (optList v)"
  by (simp add: addStr_def set_foldl_setAdd)

lemma distinct_addStr: "distinct xs \<Longrightarrow> distinct (addStr xs v)"
  by (simp add: addStr_def distinct_foldl_setAdd)

lemma set_foldl_addStr:
  "set (foldl addStr xs vs) = set xs \<union> {e. e \<noteq> [] \<and> Some e \<in> set vs}"
  by (induction vs arbitrary: xs) (auto simp: set_addStr set_optList)

lemma distinct_foldl_addStr: "distinct xs \<Longrightarrow> distinct (foldl addStr xs vs)"
  by (induction vs arbitrary: xs) (auto simp: distinct_addStr)

lemma visit_contributes:
  "visit p allc (es, ps, ids) c =
     (if contributes p allc c
      then (addStr es (email c), addStr ps (phoneNumber c), setAdd ids (idC c))
      else (es, ps, ids))"
  by (cases "linkPrecedence c") (simp_all add: contributes_def)

lemma foldl_visit:
  "foldl (visit p allc) (es, ps, ids) cs =
     (foldl addStr es (map email (filter (contributes p allc) cs)),
      foldl addStr ps (map phoneNumber (filter (contributes p allc) cs)),
      foldl setAdd ids (map idC (filter (contributes p allc) cs)))"
  by (induction cs arbitrary: es ps ids) (simp_all add: visit_contributes del: visit.simps)

lemma sort_distinct: "distinct xs \<Longrightarrow> sort xs = sorted_list_of_set (set xs)"
  by (simp add: sorted_list_of_set_sort_remdups distinct_remdups_id)

text \<open>The three lists of a response, when every other contact of the list contributes.\<close>

lemma formatResponse_lists:
  fixes p :: Contact
  assumes all: "\<forall>c\<in>set cs. idC c \<noteq> idC p \<longrightarrow> contributes p cs c"
    and own: "\<forall>c\<in>set cs. idC c = idC p \<longrightarrow> c = p"
  shows "emails (contact (formatResponse p cs)) =
           optList (email p) @
           sorted_list_of_set (truthyValues email (insert p (set cs)) - set (optList (email p)))"
    and "phoneNumbers (contact (formatResponse p cs)) =
           optList (phoneNumber p) @
           sorted_list_of_set
             (truthyValues phoneNumber (insert p (set cs)) - set (optList (phoneNumber p)))"
    and "secondaryContactIds (contact (formatResponse p cs)) =
           sorted_list_of_set (idC ` set cs - {idC p})"
    and "distinct (emails (contact (formatResponse p cs)))"
    and "distinct (phoneNumbers (contact (formatResponse p cs)))"
    and "distinct (secondaryContactIds (contact (formatResponse p cs)))"
proof -
  let ?others = "filter (contributes p cs) cs"
  have others: "set ?others = {c \<in> set cs. idC c \<noteq> idC p}"
    using all by (auto simp: contributes_def)
  have lists: "\<And>fld :: Contact \<Rightarrow> string option.
      newSet (optList (fld p) @
              sort (filter (\<lambda>e. Some e \<noteq> fld p)
                     (foldl addStr (addStr [] (fld p)) (map fld ?others))))
        = optList (fld p) @
          sorted_list_of_set (truthyValues fld (insert p (set cs)) - set (optList (fld p)))
      \<and> distinct (optList (fld p) @
          sorted_list_of_set (truthyValues fld (insert p (set cs)) - set (optList (fld p))))"
  proof -
    fix fld :: "Contact \<Rightarrow> string option"
    let ?es = "foldl addStr (addStr [] (fld p)) (map fld ?others)"
    let ?rest = "filter (\<lambda>e. Some e \<noteq> fld p) ?es"
    have d: "distinct ?es"
      by (intro distinct_foldl_addStr distinct_addStr) simp
    have "set ?es = set (optList (fld p)) \<union> truthyValues fld {c \<in> set cs. idC c \<noteq> idC p}"
      unfolding set_foldl_addStr set_addStr set_map others
      by (auto simp: truthyValues_def image_iff)
    then have s: "set ?rest =
        truthyValues fld (insert p (set cs)) - set (optList (fld p))"
      using own by (auto simp: truthyValues_def set_optList)
    have r: "sort ?rest = sorted_list_of_set (set ?rest)"
      using d by (intro sort_distinct) simp
    have dd: "distinct (optList (fld p) @ sort ?rest)"
      using d by (auto simp: distinct_optList set_optList)
    from newSet_distinct [OF dd] dd
    show "newSet (optList (fld p) @ sort ?rest)
        = optList (fld p) @
          sorted_list_of_set (truthyValues fld (insert p (set cs)) - set (optList (fld p)))
      \<and> distinct (optList (fld p) @
          sorted_list_of_set (truthyValues fld (insert p (set cs)) - set (optList (fld p))))"
      unfolding r s by simp
  qed
  let ?ids = "foldl setAdd [] (map idC ?others)"
  have di: "distinct ?ids" by (intro distinct_foldl_setAdd) simp
  have si: "set ?ids = idC ` set cs - {idC p}"
    unfolding set_foldl_setAdd set_map others by auto
  have ids: "sort ?ids = sorted_list_of_set (idC ` set cs - {idC p})"
    using sort_distinct [OF di] si by simp
  have fr: "formatResponse p cs =
     \<lparr>contact =
        \<lparr>primaryContatctId = idC p,
         emails = newSet (optList (email p) @ sort (filter (\<lambda>e. Some e \<noteq> email p)
                     (foldl addStr (addStr [] (email p)) (map email ?others)))),
         phoneNumbers = newSet (optList (phoneNumber p) @ sort (filter (\<lambda>e. Some e \<noteq> phoneNumber p)
                     (foldl addStr (addStr [] (phoneNumber p)) (map phoneNumber ?others)))),
         secondaryContactIds = sort ?ids\<rparr>\<rparr>"
    by (simp add: formatResponse_def foldl_visit)
  show "emails (contact (formatResponse p cs)) =
           optList (email p) @
           sorted_list_of_set (truthyValues email (insert p (set cs)) - set (optList (email p)))"
    using lists [of email] by (simp add: fr)
  show "phoneNumbers (contact (formatResponse p cs)) =
           optList (phoneNumber p) @
           sorted_list_of_set
             (truthyValues phoneNumber (insert p (set cs)) - set (optList (phoneNumber p)))"
    using lists [of phoneNumber] by (simp add: fr)
  show "secondaryContactIds (contact (formatResponse p cs)) =
           sorted_list_of_set (idC ` set cs - {idC p})"
    by (simp add: fr ids)
  show "distinct (emails (contact (formatResponse p cs)))"
    using lists [of email] by (simp add: fr)
  show "distinct (phoneNumbers (contact (formatResponse p cs)))"
    using lists [of phoneNumber] by (simp add: fr)
  show "distinct (secondaryContactIds (contact (formatResponse p cs)))"
    by (simp add: fr ids)
qed


lemma finalGroup_cluster: "set (finalGroupContacts db s ult) = cluster s (idC ult)"
  by (auto simp: finalGroup_iff cluster_def)

lemma respond_wf:
  assumes wf: "wellFormed s" and ult: "ult \<in> set (rows s)" "deletedAt ult = None"
    "linkPrecedence ult = primary"
  shows "respond db s ult = formatResponse ult (finalGroupContacts db s ult)"
proof -
  let ?P = "\<lambda>c. idC c = idC ult \<and> linkPrecedence c = primary"
  have "ult \<in> set (finalGroupContacts db s ult)"
    using ult by (simp add: finalGroup_iff)
  with ult(3) have "find ?P (finalGroupContacts db s ult) \<noteq> None"
    unfolding find_None_iff by blast
  then obtain x where x: "find ?P (finalGroupContacts db s ult) = Some x" by blast
  from find_SomeD [OF x] have "idC x = idC ult" "x \<in> set (rows s)"
    by (simp_all add: finalGroup_iff)
  from wf_same_id [OF wf this(2) ult(1) this(1)] x show ?thesis
    by (simp add: respond_def primaryInFinalGroup_def)
qed

lemma new_primary_cluster:
  assumes wf: "wellFormed s" and n: "idC n = nextId s" "deletedAt n = None"
  shows "cluster (insertRow s n) (idC n) = {n}"
proof -
  have "False" if c: "c \<in> set (rows s)" "deletedAt c = None"
    "idC c = nextId s \<or> linkedId c = Some (nextId s)" for c
  proof -
    from wf_id_range [OF wf c(1)] c(3) have l: "linkedId c = Some (nextId s)" by auto
    from wf_secondary [OF wf c(1) wf_linked_secondary [OF wf c(1) l] c(2)] obtain q where
      "q \<in> set (rows s)" "linkedId c = Some (idC q)" by blast
    with l wf_id_range [OF wf this(1)] show False by simp
  qed
  with n show ?thesis
    unfolding cluster_def rows_insertRow by auto
qed

lemma finite_cluster: "finite (cluster s pid)"
  by (simp add: cluster_def)

lemma finite_truthyValues: "finite C \<Longrightarrow> finite (truthyValues fld C)"
proof -
  assume "finite C"
  moreover have "truthyValues fld C \<subseteq> the ` fld ` C"
    by (force simp: truthyValues_def)
  ultimately show ?thesis by (meson finite_imageI finite_subset)
qed

lemma own_value_in_cluster: "p \<in> C \<Longrightarrow> set (optList (fld p)) \<subseteq> truthyValues fld C"
  by (auto simp: set_optList truthyValues_def)

lemma set_own_then_sorted:
  assumes "finite A" "set xs \<subseteq> A"
  shows "set (xs @ sorted_list_of_set (A - set xs)) = A"
  using assms by auto

text \<open>
  The service writes \<open>email || null\<close> and \<open>phoneNumber || null\<close>, never an empty string;
  where no row holds an empty string, the non-empty values of a column are all its values.
\<close>

lemma truthyValues_all:
  assumes "\<forall>c\<in>C. fld c \<noteq> Some []"
  shows "truthyValues fld C = {v. \<exists>c\<in>C. fld c = Some v}"
  using assms by (auto simp: truthyValues_def)

lemma orNull_nonEmpty: "orNull v \<noteq> Some []"
  by (cases v) (simp_all add: orNull_def truthyStr_def)

lemma exact_match_plan:
  assumes wf: "wellFormed s" and dj: "clustersDisjoint s"
    and fr: "truthyStr em \<or> truthyStr ph"
    and x: "x \<in> set (rows s)" "deletedAt x = None" "email x = orNull em"
      "phoneNumber x = orNull ph"
  obtains ult where "plan db s em ph = Proceed ult []" "idC ult = rootId x"
proof -
  have mx: "matchWhere em ph x"
    using fr x(3,4) by (auto simp: matchWhere_def orNull_def)
  with x have "x \<in> set (matchingContacts db s em ph)" by (simp add: matching_iff)
  then have ne: "matchingContacts db s em ph \<noteq> []" by auto
  have root: "idC q = rootId x"
    if q: "q \<in> set (collectPrimaries s (matchingContacts db s em ph))" for q
  proof -
    from q obtain m where m: "m \<in> set (matchingContacts db s em ph)" "q \<in> set (primaryOf s m)"
      unfolding collectPrimaries_set by blast
    then have live: "m \<in> set (rows s)" "deletedAt m = None" and mm: "matchWhere em ph m"
      by (simp_all add: matching_iff)
    from wf_primaryOf [OF wf live] obtain p where
      p: "primaryOf s m = [p]"
        "if linkPrecedence m = primary then p = m else linkedId m = Some (idC p)" by blast
    with m(2) have qp: "q = p" by simp
    have "rootId m = idC q"
    proof (cases "linkPrecedence m = primary")
      case True
      with p(2) qp wf_primary [OF wf live(1) True] show ?thesis by (simp add: rootId_def)
    next
      case False
      with p(2) qp show ?thesis by (simp add: rootId_def)
    qed
    moreover have "sharesField x m"
      using mm x(3,4) by (auto simp: matchWhere_def sharesField_def orNull_def)
    with dj x(1,2) live have "rootId x = rootId m"
      unfolding clustersDisjoint_def list_all_iff by blast
    ultimately show ?thesis by simp
  qed
  from wf_plan_Proceed [OF wf ne] obtain ult others where
    ups: "uniquePrimaryContacts s (matchingContacts db s em ph) = ult # others"
    and pl: "plan db s em ph = Proceed ult (demotions s ult others)" by blast
  have sub: "set (ult # others) \<subseteq> set (collectPrimaries s (matchingContacts db s em ph))"
    using uniquePrimaryContacts_subset [of s "matchingContacts db s em ph"] ups by simp
  have "others = []"
  proof (cases others)
    case (Cons o' rest)
    with sub root [of ult] root [of o'] have "idC o' = idC ult" by simp
    with uniquePrimaryContacts_distinct [of s "matchingContacts db s em ph"] ups Cons
    show ?thesis by simp
  qed simp
  with pl root [of ult] sub that show ?thesis by simp
qed

lemma wf_root:
  assumes wf: "wellFormed s" and c: "c \<in> set (rows s)" "deletedAt c = None"
  obtains p where "primaryOf s c = [p]" "idC p = rootId c"
proof -
  from wf_primaryOf [OF wf c] obtain p where
    p: "primaryOf s c = [p]"
      "if linkPrecedence c = primary then p = c else linkedId c = Some (idC p)" by blast
  have "idC p = rootId c"
  proof (cases "linkPrecedence c = primary")
    case True
    with p(2) wf_primary [OF wf c(1) True] show ?thesis by (simp add: rootId_def)
  next
    case False
    with p(2) show ?thesis by (simp add: rootId_def)
  qed
  with p(1) that show ?thesis by blast
qed

lemma matched_root:
  assumes wf: "wellFormed s" and m: "m \<in> set (matchingContacts db s em ph)"
  shows "rootId m \<in> idC ` set (uniquePrimaryContacts s (matchingContacts db s em ph))"
proof -
  from m have live: "m \<in> set (rows s)" "deletedAt m = None"
    by (simp_all add: matching_iff)
  from wf_root [OF wf live] obtain p where p: "primaryOf s m = [p]" "idC p = rootId m" by blast
  then have "p \<in> set (primaryOf s m)" by simp
  with m have "p \<in> set (collectPrimaries s (matchingContacts db s em ph))"
    unfolding collectPrimaries_set by blast
  then have "idC p \<in> idC ` set (uniquePrimaryContacts s (matchingContacts db s em ph))"
    by (simp add: uniquePrimaryContacts_ids)
  with p(2) show ?thesis by simp
qed

lemma shares_new_row:
  assumes y: "y \<in> set (rows s)" "deletedAt y = None"
    and n: "email n = orNull em" "phoneNumber n = orNull ph"
    and sh: "sharesField n y \<or> sharesField y n"
  shows "y \<in> set (matchingContacts db s em ph)"
proof -
  from sh n have "matchWhere em ph y"
    by (auto simp: sharesField_def matchWhere_def orNull_def truthyStr_simps split: if_splits)
  with y show ?thesis by (simp add: matching_iff)
qed

lemma sharesField_relink:
  "sharesField (relink now pid U x) (relink now pid U y) = sharesField x y"
  by (simp add: sharesField_def relink_fields)

lemma rootId_relink:
  "rootId (relink now pid U c) = (if idC c \<in> U then pid else rootId c)"
  by (simp add: relink_def rootId_def)

lemma updated_iff_root:
  assumes wf: "wellFormed s" and c: "c \<in> set (rows s)" "deletedAt c = None"
    and others: "set others \<subseteq> set (rows s)" "\<forall>d\<in>set others. linkPrecedence d = primary"
  shows "idC c \<in> idC ` set (demotions s ult others) \<longleftrightarrow> rootId c \<in> idC ` set others"
proof
  assume "idC c \<in> idC ` set (demotions s ult others)"
  then consider d where "d \<in> set others" "idC c = idC d"
    | c' where "c' \<in> set (rows s)" "linkedId c' \<in> Some ` idC ` set others" "idC c = idC c'"
    unfolding demotions_ids by auto
  then show "rootId c \<in> idC ` set others"
  proof cases
    case 1
    with others have d: "d \<in> set (rows s)" "linkPrecedence d = primary" by auto
    from wf_same_id [OF wf c(1) d(1) 1(2)] have "c = d" .
    with wf_primary [OF wf d] 1(1) show ?thesis by (simp add: rootId_def)
  next
    case 2
    from wf_same_id [OF wf c(1) 2(1,3)] have "c = c'" .
    with 2(2) show ?thesis by (auto simp: rootId_def)
  qed
next
  assume r: "rootId c \<in> idC ` set others"
  show "idC c \<in> idC ` set (demotions s ult others)"
  proof (cases "linkedId c")
    case None
    with r show ?thesis unfolding demotions_ids by (simp add: rootId_def)
  next
    case (Some l)
    with r have "linkedId c \<in> Some ` idC ` set others" by (simp add: rootId_def)
    with c show ?thesis unfolding demotions_ids by blast
  qed
qed

text \<open>
  Both invariants hold of the empty store. Every call keeps \<open>wellFormed\<close> (that is part
  of the one-hop theorem); a call that returns a result keeps \<open>clustersDisjoint\<close>. A
  call whose transaction fails after the new secondary has been created does not keep it.
\<close>

lemma emptyStore_invariants: "wellFormed emptyStore \<and> clustersDisjoint emptyStore"
  by (simp add: wellFormed_def clustersDisjoint_def emptyStore_def)

lemma identify_keeps_clusters:
  assumes wf: "wellFormed s" and dj: "clustersDisjoint s"
    and res: "identifyContact db f now s em ph = (Inr r, s')"
  shows "clustersDisjoint s'"
proof -
  note nf = identify_success_NoFault [OF res]
  have old: "rootId x = rootId y"
    if "x \<in> set (rows s)" "y \<in> set (rows s)" "deletedAt x = None" "deletedAt y = None"
      "sharesField x y" for x y
    using dj that unfolding clustersDisjoint_def list_all_iff by blast
  show ?thesis
  proof (cases "plan db s em ph")
    case CreatePrimary
    let ?n = "newContact now s (orNull em) (orNull ph) None primary"
    from nf CreatePrimary have s': "s' = insertRow s ?n"
      by (auto simp: identifyContact_def identifyContactAmid_def createPrimary_def create_def insertRow_def)
    have none: "matchingContacts db s em ph = []"
    proof (rule ccontr)
      assume "matchingContacts db s em ph \<noteq> []"
      from wf_plan_Proceed [OF wf this] CreatePrimary show False by auto
    qed
    have n: "email ?n = orNull em" "phoneNumber ?n = orNull ph"
      by (simp_all add: newContact_def)
    have "rootId x = rootId y"
      if xy: "x \<in> set (rows s @ [?n])" "y \<in> set (rows s @ [?n])" "deletedAt x = None"
        "deletedAt y = None" "sharesField x y" for x y
    proof (cases "x = ?n \<or> y = ?n")
      case False
      with xy old show ?thesis by auto
    next
      case True
      show ?thesis
      proof (cases "x = y")
        case False
        with True xy consider "x = ?n" "y \<in> set (rows s)" | "y = ?n" "x \<in> set (rows s)"
          by auto
        then have "\<exists>z. z \<in> set (matchingContacts db s em ph)"
        proof cases
          case 1
          with shares_new_row [OF 1(2) xy(4) n] xy(5) show ?thesis by blast
        next
          case 2
          with shares_new_row [OF 2(2) xy(3) n] xy(5) show ?thesis by blast
        qed
        with none show ?thesis by simp
      qed simp
    qed
    then show ?thesis
      unfolding s' clustersDisjoint_def list_all_iff rows_insertRow by blast
  next
    case (Proceed ult upd)
    from wf_plan [OF wf Proceed] obtain others where
      ups: "uniquePrimaryContacts s (matchingContacts db s em ph) = ult # others"
      and upd: "upd = demotions s ult others" by blast
    have oth: "set others \<subseteq> set (rows s)" "\<forall>d\<in>set others. linkPrecedence d = primary"
      using uniquePrimaryContacts_live [of _ s db em ph] ups by auto
    let ?n = "newSecondary now s em ph ult"
    have fresh: "idC c \<noteq> idC ?n" if "c \<in> set (rows s)" for c
      using wf_id_range [OF wf that] by (simp add: newSecondary_fields)
    obtain us s1 where
      s': "s' = relinked now ult us s1"
      and cases: "(s1 = s \<and> us = upd) \<or> (s1 = insertRow s ?n \<and> us = upd @ [?n])"
    proof (cases "createsSecondary (allRelatedContacts s ult upd) em ph")
      case False
      with Proceed have "identifyContact db NoFault now s em ph = applyUpdates (\<lambda>t. t) db NoFault now upd s ult"
        by (simp add: identifyContact_def identifyContactAmid_def)
      with mergeReady_apply [OF mergeReady_plan [OF wf Proceed], of NoFault db now] nf
      have "s' = relinked now ult upd s" by simp
      then show ?thesis by (intro that [of upd s]) simp_all
    next
      case True
      note mr = mergeReady_create [OF mergeReady_plan [OF wf Proceed] refl, of now em ph]
      from True Proceed have
        "identifyContact db NoFault now s em ph
           = applyUpdates (\<lambda>t. t) db NoFault now (upd @ [?n]) (insertRow s ?n) ult"
        by (simp add: identifyContact_def identifyContactAmid_def create_def insertRow_def newSecondary_def)
      with mergeReady_apply [OF mr, of NoFault db now] nf
      have "s' = relinked now ult (upd @ [?n]) (insertRow s ?n)" by simp
      then show ?thesis by (intro that [of "upd @ [?n]" "insertRow s ?n"]) simp_all
    qed
    let ?U = "idC ` set us"
    let ?g = "relink now (idC ult) ?U"
    have root_old: "rootId (?g c) = (if rootId c \<in> idC ` set others then idC ult else rootId c)"
      if c: "c \<in> set (rows s)" "deletedAt c = None" for c
    proof -
      have "idC c \<in> ?U \<longleftrightarrow> idC c \<in> idC ` set upd"
        using cases fresh [OF c(1)] by auto
      also have "\<dots> \<longleftrightarrow> rootId c \<in> idC ` set others"
        unfolding upd by (rule updated_iff_root [OF wf c oth])
      finally show ?thesis by (simp add: rootId_relink)
    qed
    have root_new: "rootId (?g ?n) = idC ult" if "us = upd @ [?n]"
      using that by (simp add: rootId_relink)
    have root_match: "rootId (?g y) = idC ult"
      if y: "y \<in> set (matchingContacts db s em ph)" for y
    proof -
      from y have live: "y \<in> set (rows s)" "deletedAt y = None" by (simp_all add: matching_iff)
      from matched_root [OF wf y] ups have "rootId y = idC ult \<or> rootId y \<in> idC ` set others"
        by auto
      then show ?thesis unfolding root_old [OF live] by auto
    qed
    have n: "email ?n = orNull em" "phoneNumber ?n = orNull ph"
      by (simp_all add: newSecondary_fields)
    have "rootId (?g x) = rootId (?g y)"
      if xy: "x \<in> set (rows s1)" "y \<in> set (rows s1)" "deletedAt x = None" "deletedAt y = None"
        "sharesField x y" for x y
    proof (cases "x \<in> set (rows s) \<and> y \<in> set (rows s)")
      case True
      with old xy have "rootId x = rootId y" by blast
      with True xy show ?thesis by (simp add: root_old)
    next
      case False
      with cases xy have c2: "s1 = insertRow s ?n" "us = upd @ [?n]" by auto
      show ?thesis
      proof (cases "x = y")
        case False
        with \<open>\<not> (x \<in> set (rows s) \<and> y \<in> set (rows s))\<close> xy c2
        consider "x = ?n" "y \<in> set (rows s)" | "y = ?n" "x \<in> set (rows s)"
          by (auto simp: rows_insertRow)
        then show ?thesis
        proof cases
          case 1
          from shares_new_row [OF 1(2) xy(4) n] xy(5) 1(1)
          have "y \<in> set (matchingContacts db s em ph)" by blast
          from root_match [OF this] root_new [OF c2(2)] 1(1) show ?thesis by simp
        next
          case 2
          from shares_new_row [OF 2(2) xy(3) n] xy(5) 2(1)
          have "x \<in> set (matchingContacts db s em ph)" by blast
          from root_match [OF this] root_new [OF c2(2)] 2(1) show ?thesis by simp
        qed
      qed simp
    qed
    then have "rootId x' = rootId y'"
      if "x' \<in> set (map ?g (rows s1))" "y' \<in> set (map ?g (rows s1))" "deletedAt x' = None"
        "deletedAt y' = None" "sharesField x' y'" for x' y'
      using that by (auto simp: relink_fields sharesField_relink)
    then show ?thesis
      unfolding s' clustersDisjoint_def list_all_iff relinked_def by simp
  qed
qed

text \<open>
  On a store with both invariants, a request that some live row carries exactly creates
  nothing and changes nothing, and so does its repetition.
\<close>

lemma exact_match_idempotent:
  assumes wf: "wellFormed s" and dj: "clustersDisjoint s"
    and fr: "truthyStr em \<or> truthyStr ph"
    and ex: "\<exists>x\<in>set (rows s). deletedAt x = None \<and> email x = orNull em
               \<and> phoneNumber x = orNull ph"
    and f: "f \<noteq> ReadFails" "f \<noteq> ReadBackFails" "f' \<noteq> ReadFails" "f' \<noteq> ReadBackFails"
  shows "\<exists>r. identifyContact db f now s em ph = (Inr r, s)
           \<and> identifyContact db f' now' (snd (identifyContact db f now s em ph)) em ph = (Inr r, s)"
proof -
  from ex obtain x where x: "x \<in> set (rows s)" "deletedAt x = None" "email x = orNull em"
    "phoneNumber x = orNull ph" by blast
  from exact_match_plan [OF wf dj fr x] obtain ult where
    pl: "plan db s em ph = Proceed ult []" and root: "idC ult = rootId x" by blast
  have "clusterWhere (idC ult) x"
    unfolding root by (cases "linkedId x") (simp_all add: clusterWhere_def rootId_def)
  with x have "x \<in> set (allRelatedContacts s ult [])"
    by (simp add: allRelatedContacts_def findMany_iff)
  with x(3,4) have "exactMatchExists (allRelatedContacts s ult []) em ph"
    unfolding exactMatchExists_def list_ex_iff by blast
  then have no: "\<not> createsSecondary (allRelatedContacts s ult []) em ph"
    by (simp add: createsSecondary_def)
  have "identifyContact db g t s em ph = (Inr (respond db s ult), s)"
    if "g \<noteq> ReadFails" "g \<noteq> ReadBackFails" for g t
    using pl no that
    by (simp add: identifyContact_def identifyContactAmid_def applyUpdates_def readBack_def)
  with f show ?thesis by simp
qed

section \<open>The match resolver\<close>

text \<open>
  C6 (as amended). For every engine, the match list holds exactly the rows that are not
  deleted and whose email equals the given non-empty email or whose phone equals the given
  non-empty phone, each as often as the table holds it; it is ascending in \<open>createdAt\<close>.
  The order of rows with the same \<open>createdAt\<close> is the engine's, not that of the ids:
  when no two matched rows share their \<open>createdAt\<close>, every engine returns the same list.
  The list may be empty.
\<close>

theorem C6_matching:
  "set (matchingContacts db s em ph) =
     {c \<in> set (rows s). deletedAt c = None \<and>
        ((truthyStr em \<and> email c = em) \<or> (truthyStr ph \<and> phoneNumber c = ph))}
   \<and> sorted (map createdAt (matchingContacts db s em ph))
   \<and> mset (matchingContacts db s em ph) = mset (findMany (matchWhere em ph) s)
   \<and> (distinct (map createdAt (findMany (matchWhere em ph) s))
        \<longrightarrow> matchingContacts db s em ph = matchingContacts db' s em ph)"
proof (intro conjI impI)
  show "set (matchingContacts db s em ph) =
     {c \<in> set (rows s). deletedAt c = None \<and>
        ((truthyStr em \<and> email c = em) \<or> (truthyStr ph \<and> phoneNumber c = ph))}"
    by (auto simp: matchingContacts_def orderByCreatedAt_def findMany_def matchWhere_def)
  show "sorted (map createdAt (matchingContacts db s em ph))"
    by (simp add: matchingContacts_def orderByCreatedAt_def)
  show "mset (matchingContacts db s em ph) = mset (findMany (matchWhere em ph) s)"
    by (simp add: matchingContacts_def orderByCreatedAt_def)
  assume d: "distinct (map createdAt (findMany (matchWhere em ph) s))"
  let ?fm = "findMany (matchWhere em ph) s"
  have props: "sorted (map createdAt (matchingContacts e s em ph))
      \<and> distinct (map createdAt (matchingContacts e s em ph))
      \<and> set (matchingContacts e s em ph) = set ?fm" for e
    using d by (simp add: matchingContacts_def orderByCreatedAt_def distinct_map)
  have inj: "inj_on createdAt (set (matchingContacts db s em ph) \<union> set (matchingContacts db' s em ph))"
    using d props by (simp add: distinct_map)
  from map_sorted_distinct_set_unique [OF inj] props [of db] props [of db']
  show "matchingContacts db s em ph = matchingContacts db' s em ph" by simp
qed

text \<open>
  The two primaries of \<open>georgeStore\<close> were created at different times: both engines
  return them in the same order.
\<close>

theorem C6_matching_witness:
  "distinct (map createdAt
      (findMany (matchWhere (Some ''george@hillvalley.edu'') (Some ''717171'')) georgeStore))
   \<and> map idC (matchingContacts tableOrder georgeStore (Some ''george@hillvalley.edu'')
        (Some ''717171'')) = [11, 27]
   \<and> matchingContacts tableOrder georgeStore (Some ''george@hillvalley.edu'') (Some ''717171'')
       = matchingContacts (emailIndexFirst (Some ''george@hillvalley.edu'')) georgeStore
           (Some ''george@hillvalley.edu'') (Some ''717171'')"
proof -
  have h: "distinct (map createdAt
      (findMany (matchWhere (Some ''george@hillvalley.edu'') (Some ''717171'')) georgeStore))"
    by code_simp
  have v: "map idC (matchingContacts tableOrder georgeStore (Some ''george@hillvalley.edu'')
        (Some ''717171'')) = [11, 27]"
    by code_simp
  from C6_matching [of tableOrder georgeStore "Some ''george@hillvalley.edu''" "Some ''717171''"
      "emailIndexFirst (Some ''george@hillvalley.edu'')"] h
  have "matchingContacts tableOrder georgeStore (Some ''george@hillvalley.edu'') (Some ''717171'')
       = matchingContacts (emailIndexFirst (Some ''george@hillvalley.edu'')) georgeStore
           (Some ''george@hillvalley.edu'') (Some ''717171'')"
    by blast
  with h v show ?thesis by (intro conjI)
qed

text \<open>
  C6 as stated fails: rows 1 and 2 of \<open>tieStore\<close> have the same \<open>createdAt\<close>. The engine
  finds row 2 through the email of the request and row 1 through its phone, and returns
  them in that order, which is not the order of the ids.
\<close>

theorem C6_counterexample:
  "map idC (matchingContacts (emailIndexFirst (Some ''a@x.com'')) tieStore (Some ''a@x.com'')
      (Some ''111'')) = [2, 1]
   \<and> map createdAt (matchingContacts (emailIndexFirst (Some ''a@x.com'')) tieStore
        (Some ''a@x.com'') (Some ''111'')) = [5, 5]"
  by code_simp

section \<open>Oldest primary wins\<close>

text \<open>
  C1 (as amended). On a well-formed store, when the match list is not empty, the call
  succeeds and chooses as ultimate primary one of the primaries the match list resolves to,
  with the least \<open>createdAt\<close> among them. Every other resolved primary is, in the
  resulting store, a secondary whose \<open>linkedId\<close> is the ultimate primary's id; the ultimate
  primary is still a row of the store, and the response's \<open>primaryContatctId\<close> is its id.
\<close>

theorem C1_oldest_primary_wins:
  assumes wf: "wellFormed s" and m: "matchingContacts db s em ph \<noteq> []"
  shows "\<exists>r s' ult. identifyContact db NoFault now s em ph = (Inr r, s')
      \<and> ult \<in> set (collectPrimaries s (matchingContacts db s em ph))
      \<and> (\<forall>q\<in>set (collectPrimaries s (matchingContacts db s em ph)). createdAt ult \<le> createdAt q)
      \<and> (\<forall>q\<in>set (collectPrimaries s (matchingContacts db s em ph)). q \<noteq> ult \<longrightarrow>
            q\<lparr>linkedId := Some (idC ult), linkPrecedence := secondary, updatedAt := now\<rparr>
              \<in> set (rows s'))
      \<and> ult \<in> set (rows s')
      \<and> primaryContatctId (contact r) = idC ult"
proof (rule wf_plan_Proceed [OF wf m])
  fix ult others
  assume ups: "uniquePrimaryContacts s (matchingContacts db s em ph) = ult # others"
    and pl: "plan db s em ph = Proceed ult (demotions s ult others)"
  let ?P = "set (collectPrimaries s (matchingContacts db s em ph))"
  show ?thesis
  proof (rule identify_merged [OF wf pl, of now])
    fix us s1
    assume mr: "mergeReady s1 ult us" and sub: "set (rows s) \<subseteq> set (rows s1)"
      and ids: "idC ` set (demotions s ult others) \<subseteq> idC ` set us"
      and res: "identifyContact db NoFault now s em ph =
         (Inr (respond db (relinked now ult us s1) ult), relinked now ult us s1)"
    let ?s' = "relinked now ult us s1"
    have rowsP: "q \<in> set (rows s)" if "q \<in> ?P" for q
      using collectPrimaries_live [OF that] by (simp add: matching_iff)
    have inU: "q \<in> set (ult # others)" if q: "q \<in> ?P" for q
    proof -
      from q have "idC q \<in> idC ` set (uniquePrimaryContacts s (matchingContacts db s em ph))"
        by (simp add: uniquePrimaryContacts_ids)
      then obtain q' where q': "q' \<in> set (ult # others)" "idC q' = idC q"
        unfolding ups by (metis imageE)
      then have "q' \<in> ?P"
        using uniquePrimaryContacts_subset [of s "matchingContacts db s em ph"] ups by auto
      from wf_same_id [OF wf rowsP [OF this] rowsP [OF q] q'(2)] q'(1) show ?thesis by simp
    qed
    have ultP: "ult \<in> ?P"
      using uniquePrimaryContacts_subset [of s "matchingContacts db s em ph"] ups by auto
    have least: "\<forall>q\<in>?P. createdAt ult \<le> createdAt q"
    proof
      fix q assume "q \<in> ?P"
      from inU [OF this] uniquePrimaryContacts_sorted [of s "matchingContacts db s em ph"]
      show "createdAt ult \<le> createdAt q" unfolding ups by auto
    qed
    have demoted: "\<forall>q\<in>?P. q \<noteq> ult \<longrightarrow>
        q\<lparr>linkedId := Some (idC ult), linkPrecedence := secondary, updatedAt := now\<rparr>
          \<in> set (rows ?s')"
    proof (intro ballI impI)
      fix q assume q: "q \<in> ?P" "q \<noteq> ult"
      from inU [OF q(1)] q(2) have "q \<in> set others" by simp
      then have "idC q \<in> idC ` set us"
        using ids unfolding demotions_ids by auto
      then have "relink now (idC ult) (idC ` set us) q
                   = q\<lparr>linkedId := Some (idC ult), linkPrecedence := secondary, updatedAt := now\<rparr>"
        by (simp add: relink_def)
      moreover have "q \<in> set (rows s1)" using rowsP [OF q(1)] sub by blast
      ultimately have
        "q\<lparr>linkedId := Some (idC ult), linkPrecedence := secondary, updatedAt := now\<rparr>
           \<in> relink now (idC ult) (idC ` set us) ` set (rows s1)"
        by (metis image_eqI)
      then show "q\<lparr>linkedId := Some (idC ult), linkPrecedence := secondary, updatedAt := now\<rparr>
          \<in> set (rows ?s')"
        by (simp add: relinked_def)
    qed
    from mr have u: "linkPrecedence ult = primary" "deletedAt ult = None"
      unfolding mergeReady_def by blast+
    note ult' = mergeReady_ult [OF mr, of now]
    have pid: "primaryContatctId (contact (respond db ?s' ult)) = idC ult"
      by (rule respond_primary_id [OF ult' u(2,1)])
    show ?thesis
      by (intro exI [of _ "respond db ?s' ult"] exI [of _ ?s'] exI [of _ ult] conjI
          res ultP least demoted ult' pid)
  qed
qed

text \<open>
  The hypotheses of C1 hold for the request that joins the two primaries of
  \<open>georgeStore\<close>.
\<close>

theorem C1_oldest_primary_wins_witness:
  "wellFormed georgeStore
   \<and> matchingContacts tableOrder georgeStore (Some ''george@hillvalley.edu'') (Some ''717171'') \<noteq> []
   \<and> (\<exists>r s' ult.
        identifyContact tableOrder NoFault 300 georgeStore (Some ''george@hillvalley.edu'') (Some ''717171'')
          = (Inr r, s')
        \<and> ult \<in> set (rows s') \<and> primaryContatctId (contact r) = idC ult)"
proof -
  have h1: "wellFormed georgeStore" by code_simp
  have h2: "matchingContacts tableOrder georgeStore (Some ''george@hillvalley.edu'') (Some ''717171'') \<noteq> []"
    by code_simp
  from C1_oldest_primary_wins [OF h1 h2, of 300] obtain r s' ult where
    "identifyContact tableOrder NoFault 300 georgeStore (Some ''george@hillvalley.edu'') (Some ''717171'')
       = (Inr r, s')" "ult \<in> set (rows s')" "primaryContatctId (contact r) = idC ult"
    by (elim exE conjE)
  with h1 h2 show ?thesis by (intro conjI exI)
qed

text \<open>
  C1 as stated fails when two resolved primaries share their \<open>createdAt\<close>: the stable sort
  keeps the one resolved first, here id 2, and the primary with the smaller id is demoted.
\<close>

theorem C1_counterexample:
  "wellFormed tiedPrimariesStore
   \<and> map (\<lambda>c. (idC c, createdAt c))
        (collectPrimaries tiedPrimariesStore
           (matchingContacts tableOrder tiedPrimariesStore (Some ''c@x.com'') (Some ''222'')))
       = [(2, 0), (1, 0)]
   \<and> fst (identifyContact tableOrder NoFault 300 tiedPrimariesStore (Some ''c@x.com'') (Some ''222''))
       = Inr \<lparr>contact = \<lparr>primaryContatctId = 2,
                emails = [''b@x.com'', ''a@x.com'', ''c@x.com''], phoneNumbers = [''222''],
                secondaryContactIds = [1, 3, 4, 5]\<rparr>\<rparr>
   \<and> linkView (snd (identifyContact tableOrder NoFault 300 tiedPrimariesStore (Some ''c@x.com'') (Some ''222'')))
       = [(1, secondary, Some 2, None), (2, primary, None, None), (3, secondary, Some 2, None),
          (4, secondary, Some 2, None), (5, secondary, Some 2, None)]"
  by code_simp

section \<open>The one-hop invariant\<close>

text \<open>
  C2 (as amended). A call on a well-formed store leaves a well-formed store, whatever
  fails: every live secondary is linked to a live primary. When a primary \<open>d\<close> is a
  secondary afterwards, every live row \<open>c\<close> that was linked to it is afterwards a secondary
  with the same \<open>linkedId\<close> as \<open>d\<close>.
\<close>

theorem C2_one_hop_preserved:
  assumes wf: "wellFormed s"
  shows "wellFormed (snd (identifyContact db f now s em ph))
     \<and> (\<forall>d\<in>set (rows s). \<forall>c\<in>set (rows s).
          \<forall>d'\<in>set (rows (snd (identifyContact db f now s em ph))).
          \<forall>c'\<in>set (rows (snd (identifyContact db f now s em ph))).
            idC d' = idC d \<and> linkPrecedence d = primary \<and> linkPrecedence d' = secondary
            \<and> idC c' = idC c \<and> deletedAt c = None \<and> linkedId c = Some (idC d)
            \<longrightarrow> linkPrecedence c' = secondary \<and> linkedId c' = linkedId d')"
  using wf
proof (cases rule: identify_outcome [where db = db and f = f and now = now and em = em and ph = ph])
  case unchanged
  have "d' = d" if "d \<in> set (rows s)" "d' \<in> set (rows s)" "idC d' = idC d" for d d'
    using wf_same_id [OF wf that(2,1,3)] .
  then have "False"
    if "d \<in> set (rows s)" "d' \<in> set (rows s)" "idC d' = idC d"
      "linkPrecedence d = primary" "linkPrecedence d' = secondary" for d d'
    using that by fastforce
  with unchanged wf show ?thesis by metis
next
  case (inserted n)
  have "linkPrecedence d' = linkPrecedence d"
    if "d \<in> set (rows s)" "d' \<in> set (rows (insertRow s n))" "idC d' = idC d" for d d'
  proof -
    from that(1) have "d \<in> set (rows (insertRow s n))" by (simp add: rows_insertRow)
    from wf_same_id [OF inserted(2) that(2) this that(3)] show ?thesis by simp
  qed
  then have "False"
    if "d \<in> set (rows s)" "d' \<in> set (rows (insertRow s n))" "idC d' = idC d"
      "linkPrecedence d = primary" "linkPrecedence d' = secondary" for d d'
    using that by fastforce
  with inserted show ?thesis by metis
next
  case (merged ult us s1)
  let ?U = "idC ` set us"
  let ?g = "relink now (idC ult) ?U"
  from merged(1) have wf1: "wellFormed s1"
    and clo: "\<And>c p. c \<in> set (rows s1) \<Longrightarrow> p \<in> set (rows s1) \<Longrightarrow> deletedAt c = None \<Longrightarrow>
           linkedId c = Some (idC p) \<Longrightarrow> idC p \<in> ?U \<Longrightarrow> idC c \<in> ?U"
    unfolding mergeReady_def by blast+
  have sub: "set (rows s) \<subseteq> set (rows s1)"
    using merged(2) by (auto simp: rows_insertRow)
  have rows': "rows (relinked now ult us s1) = map ?g (rows s1)"
    by (simp add: relinked_def)
  have img: "x' = ?g x" if "x \<in> set (rows s)" "x' \<in> set (map ?g (rows s1))" "idC x' = idC x" for x x'
  proof -
    from that(2) obtain y where y: "y \<in> set (rows s1)" "x' = ?g y" by auto
    with that(3) have "idC y = idC x" by (simp add: relink_fields)
    from wf_same_id [OF wf1 y(1) _ this] that(1) sub have "y = x" by blast
    with y show ?thesis by simp
  qed
  have "linkPrecedence c' = secondary \<and> linkedId c' = linkedId d'"
    if d: "d \<in> set (rows s)" and c: "c \<in> set (rows s)"
      and d': "d' \<in> set (map ?g (rows s1))" and c': "c' \<in> set (map ?g (rows s1))"
      and h: "idC d' = idC d" "linkPrecedence d = primary" "linkPrecedence d' = secondary"
        "idC c' = idC c" "deletedAt c = None" "linkedId c = Some (idC d)" for d c d' c'
  proof -
    have d'_eq: "d' = ?g d" by (rule img [OF d d' h(1)])
    have c'_eq: "c' = ?g c" by (rule img [OF c c' h(4)])
    have din: "idC d \<in> ?U"
    proof (rule ccontr)
      assume "idC d \<notin> ?U"
      then have "?g d = d" by (rule relink_out)
      with d'_eq h(2,3) show False by simp
    qed
    from c d sub have "c \<in> set (rows s1)" "d \<in> set (rows s1)" by auto
    from clo [OF this h(5,6) din] have cin: "idC c \<in> ?U" .
    from relink_in [OF cin, of now "idC ult"] relink_in [OF din, of now "idC ult"]
    show ?thesis by (simp add: d'_eq c'_eq)
  qed
  with mergeReady_wellFormed [OF merged(1), of now] show ?thesis
    unfolding merged(3) rows' by blast
qed

text \<open>
  A merge on \<open>familyStore\<close>: primary 2 is demoted under 1 and its secondary 3 is re-pointed
  to 1.
\<close>

theorem C2_one_hop_preserved_witness:
  "wellFormed familyStore
   \<and> wellFormed (snd (identifyContact tableOrder NoFault 10 familyStore (Some ''a@x.com'') (Some ''111'')))
   \<and> linkView (snd (identifyContact tableOrder NoFault 10 familyStore (Some ''a@x.com'') (Some ''111''))) =
       [(1, primary, None, None), (2, secondary, Some 1, None), (3, secondary, Some 1, None),
        (4, secondary, Some 1, None)]"
proof -
  have h: "wellFormed familyStore" by code_simp
  have v: "linkView (snd (identifyContact tableOrder NoFault 10 familyStore (Some ''a@x.com'') (Some ''111''))) =
       [(1, primary, None, None), (2, secondary, Some 1, None), (3, secondary, Some 1, None),
        (4, secondary, Some 1, None)]" by code_simp
  from C2_one_hop_preserved [OF h, of tableOrder NoFault 10 "Some ''a@x.com''" "Some ''111''"] h v
  show ?thesis by blast
qed

text \<open>
  C2 as stated fails for a soft-deleted secondary: after the merge row 3 is still linked to
  row 2, which is now a secondary.
\<close>

theorem C2_counterexample:
  "wellFormed deletedStore
   \<and> linkView deletedStore =
       [(1, primary, None, None), (2, primary, None, None), (3, secondary, Some 2, Some 4)]
   \<and> linkView (snd (identifyContact tableOrder NoFault 10 deletedStore (Some ''a@x.com'') (Some ''111''))) =
       [(1, primary, None, None), (2, secondary, Some 1, None), (3, secondary, Some 2, Some 4),
        (4, secondary, Some 1, None)]"
  by code_simp

section \<open>Failure of a call\<close>

text \<open>
  C3 (as amended). The demotions and re-links of a call are written by one transaction,
  all of them or none. The new secondary is not part of that transaction: it is created by
  a write of its own, before the transaction starts. When a call fails, the store is in one
  of three states: exactly the store before the request; or, when the transaction fails
  after the new secondary has been created, the store before the request with that one
  record appended and no demotion or re-link applied; or, when the read-back fails after
  the transaction has been committed, the store that the call leaves when nothing fails,
  with every write of the call applied.
\<close>

theorem C3_failure_leaves_rows:
  assumes "identifyContact db f now s em ph = (Inl e, s')"
  shows "s' = s
         \<or> (\<exists>ult upd. plan db s em ph = Proceed ult upd \<and> f = TransactionFails \<and>
              createsSecondary (allRelatedContacts s ult upd) em ph \<and>
              s' = s\<lparr>rows := rows s @
                        [newContact now s (orNull em) (orNull ph) (Some (idC ult)) secondary],
                     nextId := nextId s + 1\<rparr>)
         \<or> (f = ReadBackFails \<and> (\<exists>r. identifyContact db NoFault now s em ph = (Inr r, s')))"
proof (cases "f = ReadFails")
  case True
  with assms show ?thesis by (simp add: identifyContact_def identifyContactAmid_def)
next
  case nr: False
  show ?thesis
  proof (cases "plan db s em ph")
    case CreatePrimary
    with assms nr show ?thesis
      by (auto simp: identifyContact_def identifyContactAmid_def createPrimary_def
          split: sum.splits prod.splits)
  next
    case (Proceed ult upd)
    show ?thesis
    proof (cases "f = CreateFails \<or> f = TransactionFails")
      case True
      show ?thesis
      proof (cases "createsSecondary (allRelatedContacts s ult upd) em ph")
        case False
        with assms nr Proceed True show ?thesis
          by (auto simp: identifyContact_def identifyContactAmid_def applyUpdates_def
              readBack_def transaction_def split: sum.splits if_splits)
      next
        case cs: True
        with assms nr Proceed True show ?thesis
          by (auto simp: identifyContact_def identifyContactAmid_def applyUpdates_def
              readBack_def transaction_def create_def split: sum.splits if_splits)
      qed
    next
      case False
      then have f: "f \<noteq> CreateFails" "f \<noteq> TransactionFails" by simp_all
      show ?thesis
      proof (rule identify_commit [OF Proceed, of now])
        fix us and s1 :: Store
        let ?s2 = "s1\<lparr>rows := map (applyRow now us) (rows s1)\<rparr>"
        assume c: "\<And>f meanwhile. f \<noteq> ReadFails \<Longrightarrow> f \<noteq> CreateFails \<Longrightarrow> f \<noteq> TransactionFails \<Longrightarrow>
            identifyContactAmid meanwhile db f now s em ph = readBack db f (meanwhile ?s2) ult"
        from c [OF nr f, of "\<lambda>t. t"] assms have rb: "readBack db f ?s2 ult = (Inl e, s')"
          by (simp add: identifyContact_def)
        then have fb: "f = ReadBackFails" and s': "s' = ?s2"
          by (auto simp: readBack_def split: if_splits)
        from c [of NoFault "\<lambda>t. t"] have
          "identifyContact db NoFault now s em ph = (Inr (respond db ?s2 ult), s')"
          by (simp add: identifyContact_def s')
        with fb show ?thesis by blast
      qed
    qed
  qed
qed

text \<open>
  The transaction fails while the two primaries of \<open>georgeStore\<close> are merged.
\<close>

theorem C3_failure_leaves_rows_witness:
  "identifyContact tableOrder TransactionFails 300 georgeStore (Some ''george@hillvalley.edu'')
      (Some ''717171'')
     = (Inl TransactionError,
        georgeStore\<lparr>rows := rows georgeStore @
            [newContact 300 georgeStore (orNull (Some ''george@hillvalley.edu''))
               (orNull (Some ''717171'')) (Some 11) secondary],
          nextId := nextId georgeStore + 1\<rparr>)
   \<and> plan tableOrder georgeStore (Some ''george@hillvalley.edu'') (Some ''717171'')
       = Proceed (mkContact 11 (Some ''george@hillvalley.edu'') (Some ''919191'') None primary 100 None)
           [mkContact 27 (Some ''biffsucks@hillvalley.edu'') (Some ''717171'') (Some 11)
              secondary 200 None]
   \<and> identifyContact tableOrder ReadBackFails 300 georgeStore (Some ''george@hillvalley.edu'')
        (Some ''717171'')
       = (Inl ReadError,
          snd (identifyContact tableOrder NoFault 300 georgeStore (Some ''george@hillvalley.edu'')
                 (Some ''717171'')))
   \<and> (\<exists>r. identifyContact tableOrder NoFault 300 georgeStore (Some ''george@hillvalley.edu'')
              (Some ''717171'')
            = (Inr r, snd (identifyContact tableOrder NoFault 300 georgeStore
                             (Some ''george@hillvalley.edu'') (Some ''717171''))))"
proof -
  have h: "identifyContact tableOrder TransactionFails 300 georgeStore
      (Some ''george@hillvalley.edu'') (Some ''717171'')
     = (Inl TransactionError,
        georgeStore\<lparr>rows := rows georgeStore @
            [newContact 300 georgeStore (orNull (Some ''george@hillvalley.edu''))
               (orNull (Some ''717171'')) (Some 11) secondary],
          nextId := nextId georgeStore + 1\<rparr>)"
    by code_simp
  have p: "plan tableOrder georgeStore (Some ''george@hillvalley.edu'') (Some ''717171'')
       = Proceed (mkContact 11 (Some ''george@hillvalley.edu'') (Some ''919191'') None primary 100 None)
           [mkContact 27 (Some ''biffsucks@hillvalley.edu'') (Some ''717171'') (Some 11)
              secondary 200 None]"
    by code_simp
  have b: "identifyContact tableOrder ReadBackFails 300 georgeStore (Some ''george@hillvalley.edu'')
        (Some ''717171'')
       = (Inl ReadError,
          snd (identifyContact tableOrder NoFault 300 georgeStore (Some ''george@hillvalley.edu'')
                 (Some ''717171'')))"
    by code_simp
  have ne: "snd (identifyContact tableOrder NoFault 300 georgeStore (Some ''george@hillvalley.edu'')
                 (Some ''717171'')) \<noteq> georgeStore"
    by code_simp
  from C3_failure_leaves_rows [OF b] ne
  have "\<exists>r. identifyContact tableOrder NoFault 300 georgeStore (Some ''george@hillvalley.edu'')
              (Some ''717171'')
            = (Inr r, snd (identifyContact tableOrder NoFault 300 georgeStore
                             (Some ''george@hillvalley.edu'') (Some ''717171'')))"
    by simp
  with h p b show ?thesis by (intro conjI)
qed

text \<open>
  C3 as stated fails: the secondary is created before the transaction starts, and when the
  transaction fails the store keeps it, with no demotion applied. Record 28 joins the email
  of primary 11 with the phone of record 27, and record 27 is still a primary: the merge is
  half applied, and every later operation on the store observes it: a later request for the
  email of record 27 is answered with primary 27 and no secondary, while 717171 is also
  a phone of contact 11. When it is the read-back that fails, the call fails as well and
  the store is not the store before the request either: the merge is complete.
\<close>

theorem C3_counterexample:
  "identifyContact tableOrder TransactionFails 300 georgeStore (Some ''george@hillvalley.edu'')
      (Some ''717171'') =
     (Inl TransactionError,
      \<lparr>rows = rows georgeStore @
          [mkContact 28 (Some ''george@hillvalley.edu'') (Some ''717171'') (Some 11) secondary 300 None],
       nextId = 29\<rparr>)
   \<and> linkView (snd (identifyContact tableOrder TransactionFails 300 georgeStore
          (Some ''george@hillvalley.edu'') (Some ''717171''))) =
       [(11, primary, None, None), (27, primary, None, None), (28, secondary, Some 11, None)]
   \<and> linkView (snd (identifyContact tableOrder NoFault 300 georgeStore
          (Some ''george@hillvalley.edu'') (Some ''717171''))) =
       [(11, primary, None, None), (27, secondary, Some 11, None), (28, secondary, Some 11, None)]
   \<and> fst (identifyContact tableOrder NoFault 400
          (snd (identifyContact tableOrder TransactionFails 300 georgeStore
                  (Some ''george@hillvalley.edu'') (Some ''717171'')))
          (Some ''biffsucks@hillvalley.edu'') None) =
       Inr \<lparr>contact = \<lparr>primaryContatctId = 27, emails = [''biffsucks@hillvalley.edu''],
                        phoneNumbers = [''717171''], secondaryContactIds = []\<rparr>\<rparr>
   \<and> fst (identifyContact tableOrder ReadBackFails 300 georgeStore
          (Some ''george@hillvalley.edu'') (Some ''717171'')) = Inl ReadError
   \<and> linkView (snd (identifyContact tableOrder ReadBackFails 300 georgeStore
          (Some ''george@hillvalley.edu'') (Some ''717171''))) =
       [(11, primary, None, None), (27, secondary, Some 11, None), (28, secondary, Some 11, None)]"
  by code_simp

section \<open>The novelty test during a merge\<close>

text \<open>
  C4. The request joins two primaries. Email and phone of the request both belong to the
  cluster after the merge, yet the novelty test reads the rows of the ultimate primary
  before the merge only, finds the phone new and creates row 28.
\<close>

theorem C4_merge_creates_record:
  "identifyContact tableOrder NoFault 300 georgeStore (Some ''george@hillvalley.edu'') (Some ''717171'') =
     (Inr \<lparr>contact = \<lparr>primaryContatctId = 11,
            emails = [''george@hillvalley.edu'', ''biffsucks@hillvalley.edu''],
            phoneNumbers = [''919191'', ''717171''],
            secondaryContactIds = [27, 28]\<rparr>\<rparr>,
      \<lparr>rows = [mkContact 11 (Some ''george@hillvalley.edu'') (Some ''919191'') None primary 100 None,
               (mkContact 27 (Some ''biffsucks@hillvalley.edu'') (Some ''717171'') (Some 11) secondary 200 None)
                 \<lparr>updatedAt := 300\<rparr>,
               mkContact 28 (Some ''george@hillvalley.edu'') (Some ''717171'') (Some 11) secondary 300 None],
       nextId = 29\<rparr>)"
  by code_simp

section \<open>Orphaned secondaries\<close>

text \<open>
  C5 (as amended). When the match list is not empty and every matched row is a secondary
  whose non-zero \<open>linkedId\<close> names no live row, the call creates a fresh primary with the
  email and phone of the request, changes no existing row, and answers with the fresh
  record alone.
\<close>

theorem C5_orphan_creates_primary:
  assumes ne: "matchingContacts db s em ph \<noteq> []"
    and orphans: "\<forall>c\<in>set (matchingContacts db s em ph).
        linkPrecedence c = secondary
        \<and> (\<exists>l. linkedId c = Some l \<and> l \<noteq> 0 \<and> findUnique l s = None)"
  shows "identifyContact db NoFault now s em ph =
           (Inr \<lparr>contact = \<lparr>primaryContatctId = nextId s, emails = optList em,
                              phoneNumbers = optList ph, secondaryContactIds = []\<rparr>\<rparr>,
            s\<lparr>rows := rows s @ [newContact now s (orNull em) (orNull ph) None primary],
              nextId := nextId s + 1\<rparr>)"
proof -
  have "primaryOf s c = []" if "c \<in> set (matchingContacts db s em ph)" for c
    using orphans that by (auto simp: primaryOf_def)
  then have "collectPrimaries s (matchingContacts db s em ph) = []"
    by (intro collectPrimaries_Nil) blast
  then have ups: "uniquePrimaryContacts s (matchingContacts db s em ph) = []"
    by (simp add: uniquePrimaryContacts_def newMap_def)
  from ne obtain oldest rest where ms: "matchingContacts db s em ph = oldest # rest"
    by (cases "matchingContacts db s em ph") auto
  with orphans obtain l where
    o: "linkPrecedence oldest = secondary" "linkedId oldest = Some l" "l \<noteq> 0"
      "findUnique l s = None" by auto
  have "plan db s em ph = CreatePrimary"
    using ups ms o by (simp add: plan_def truthyNum_def)
  moreover have "optList (orNull v) = optList v" for v
    by (cases v) (simp_all add: optList_def orNull_def truthyStr_def)
  ultimately show ?thesis
    by (simp add: identifyContact_def identifyContactAmid_def createPrimary_def create_def formatResponse_Nil
        newContact_def)
qed

text \<open>
  The live row of \<open>orphanStore\<close> is linked to row 1, which is soft-deleted.
\<close>

theorem C5_orphan_creates_primary_witness:
  "matchingContacts tableOrder orphanStore (Some ''a@x.com'') None
     = [mkContact 2 (Some ''a@x.com'') None (Some 1) secondary 5 None]
   \<and> findUnique 1 orphanStore = None
   \<and> identifyContact tableOrder NoFault 10 orphanStore (Some ''a@x.com'') None =
           (Inr \<lparr>contact = \<lparr>primaryContatctId = nextId orphanStore, emails = optList (Some ''a@x.com''),
                              phoneNumbers = optList None, secondaryContactIds = []\<rparr>\<rparr>,
            orphanStore\<lparr>rows := rows orphanStore @
                 [newContact 10 orphanStore (orNull (Some ''a@x.com'')) (orNull None) None primary],
              nextId := nextId orphanStore + 1\<rparr>)"
proof -
  have m: "matchingContacts tableOrder orphanStore (Some ''a@x.com'') None
     = [mkContact 2 (Some ''a@x.com'') None (Some 1) secondary 5 None]" by code_simp
  have u: "findUnique 1 orphanStore = None" by code_simp
  have h1: "matchingContacts tableOrder orphanStore (Some ''a@x.com'') None \<noteq> []"
    by (simp add: m)
  have h2: "\<forall>c\<in>set (matchingContacts tableOrder orphanStore (Some ''a@x.com'') None).
        linkPrecedence c = secondary
        \<and> (\<exists>l. linkedId c = Some l \<and> l \<noteq> 0 \<and> findUnique l orphanStore = None)"
    by (simp add: m u mkContact_def)
  from C5_orphan_creates_primary [OF h1 h2, of 10] m u show ?thesis by simp
qed


text \<open>
  C5 as stated fails: the orphan, row 2, is not promoted; it stays a secondary linked to
  the deleted row 1, and a fresh row 3 is created as primary.
\<close>

theorem C5_counterexample:
  "identifyContact tableOrder NoFault 10 orphanStore (Some ''a@x.com'') None =
     (Inr \<lparr>contact = \<lparr>primaryContatctId = 3, emails = [''a@x.com''], phoneNumbers = [],
            secondaryContactIds = []\<rparr>\<rparr>,
      \<lparr>rows = [mkContact 1 (Some ''p@x.com'') None None primary 1 (Some 4),
               mkContact 2 (Some ''a@x.com'') None (Some 1) secondary 5 None,
               mkContact 3 (Some ''a@x.com'') None None primary 10 None],
       nextId = 4\<rparr>)"
  by code_simp

section \<open>Exact matches\<close>

text \<open>
  The store that a failed transaction leaves is well formed, but two of its clusters share
  a phone.
\<close>

lemma halfMergedStore_invariants:
  "wellFormed halfMergedStore \<and> \<not> clustersDisjoint halfMergedStore"
  by code_simp

text \<open>
  C7. The claim fails on \<open>halfMergedStore\<close>, a store that the service produces: three
  requests on an empty table, the third of which fails in its transaction. Row 2 of that
  store carries exactly the email and phone of the next request. The request resolves to
  the primaries 1 and 2 and keeps 1; the test for an exact match reads the rows of primary 1
  as they are before the merge, where row 2 is not, and the call creates row 4, a second
  record with the email and phone of row 2. The repetition of the request returns the same
  result and creates nothing.
\<close>

theorem C7_exact_match_creates_record:
  "snd (identifyContact tableOrder TransactionFails 300
         (snd (identifyContact tableOrder NoFault 200
                (snd (identifyContact tableOrder NoFault 100 emptyStore
                        (Some ''george@hillvalley.edu'') (Some ''919191'')))
                (Some ''biffsucks@hillvalley.edu'') (Some ''717171'')))
         (Some ''george@hillvalley.edu'') (Some ''717171''))
     = halfMergedStore
   \<and> identifyContact tableOrder NoFault 400 halfMergedStore
        (Some ''biffsucks@hillvalley.edu'') (Some ''717171'') =
       (Inr \<lparr>contact = \<lparr>primaryContatctId = 1,
                emails = [''george@hillvalley.edu'', ''biffsucks@hillvalley.edu''],
                phoneNumbers = [''919191'', ''717171''],
                secondaryContactIds = [2, 3, 4]\<rparr>\<rparr>,
        \<lparr>rows = [mkContact 1 (Some ''george@hillvalley.edu'') (Some ''919191'') None primary 100 None,
                 (mkContact 2 (Some ''biffsucks@hillvalley.edu'') (Some ''717171'') (Some 1)
                    secondary 200 None)\<lparr>updatedAt := 400\<rparr>,
                 mkContact 3 (Some ''george@hillvalley.edu'') (Some ''717171'') (Some 1) secondary 300 None,
                 mkContact 4 (Some ''biffsucks@hillvalley.edu'') (Some ''717171'') (Some 1)
                   secondary 400 None],
         nextId = 5\<rparr>)
   \<and> identifyContact tableOrder NoFault 500
        (snd (identifyContact tableOrder NoFault 400 halfMergedStore
                (Some ''biffsucks@hillvalley.edu'') (Some ''717171'')))
        (Some ''biffsucks@hillvalley.edu'') (Some ''717171'') =
       (Inr \<lparr>contact = \<lparr>primaryContatctId = 1,
                emails = [''george@hillvalley.edu'', ''biffsucks@hillvalley.edu''],
                phoneNumbers = [''919191'', ''717171''],
                secondaryContactIds = [2, 3, 4]\<rparr>\<rparr>,
        snd (identifyContact tableOrder NoFault 400 halfMergedStore
               (Some ''biffsucks@hillvalley.edu'') (Some ''717171'')))"
  by code_simp

section \<open>The shape of the response\<close>

text \<open>
  C8 (as amended). A successful call answers with an object that has the single key
  \<open>contact\<close>, whose value has the four keys \<open>primaryContatctId\<close>, \<open>emails\<close>,
  \<open>phoneNumbers\<close> and \<open>secondaryContactIds\<close>. \<open>primaryContatctId\<close> is the id of a row of
  the resulting store; on a well-formed store it is the id of the ultimate primary, or the
  id given to the primary that the call created.
\<close>

theorem C8_response_shape:
  assumes "identifyContact db f now s em ph = (Inr r, s')"
  shows "toJSON r =
           JObject [(''contact'',
             JObject [(''primaryContatctId'', JNumber (primaryContatctId (contact r))),
                      (''emails'', JArray (map JString (emails (contact r)))),
                      (''phoneNumbers'', JArray (map JString (phoneNumbers (contact r)))),
                      (''secondaryContactIds'',
                         JArray (map JNumber (secondaryContactIds (contact r))))])]
       \<and> primaryContatctId (contact r) \<in> idC ` set (rows s')
       \<and> (wellFormed s \<longrightarrow>
            primaryContatctId (contact r) =
              (case plan db s em ph of CreatePrimary \<Rightarrow> nextId s | Proceed ult upd \<Rightarrow> idC ult))"
proof (intro conjI impI)
  note nf = identify_success_NoFault [OF assms]
  show "toJSON r =
           JObject [(''contact'',
             JObject [(''primaryContatctId'', JNumber (primaryContatctId (contact r))),
                      (''emails'', JArray (map JString (emails (contact r)))),
                      (''phoneNumbers'', JArray (map JString (phoneNumbers (contact r)))),
                      (''secondaryContactIds'',
                         JArray (map JNumber (secondaryContactIds (contact r))))])]"
    by (simp add: toJSON_def)
  show "primaryContatctId (contact r) \<in> idC ` set (rows s')"
  proof (cases "plan db s em ph")
    case CreatePrimary
    with nf show ?thesis
      by (auto simp: identifyContact_def identifyContactAmid_def createPrimary_def create_def formatResponse_id
          newContact_def)
  next
    case (Proceed ult upd)
    show ?thesis
    proof (rule plan_succeeds [OF Proceed, of now])
      fix us and s1 :: Store
      let ?s2 = "s1\<lparr>rows := map (applyRow now us) (rows s1)\<rparr>"
      assume res: "identifyContact db NoFault now s em ph = (Inr (respond db ?s2 ult), ?s2)"
        and ult: "ult \<in> set (rows s1)"
      from respond_mem [OF finalGroup_nonempty [OF Proceed ult, of now us]] res nf
      show ?thesis by simp
    qed
  qed
  assume wf: "wellFormed s"
  show "primaryContatctId (contact r) =
          (case plan db s em ph of CreatePrimary \<Rightarrow> nextId s | Proceed ult upd \<Rightarrow> idC ult)"
  proof (cases "plan db s em ph")
    case CreatePrimary
    with nf show ?thesis
      by (auto simp: identifyContact_def identifyContactAmid_def createPrimary_def create_def formatResponse_id
          newContact_def)
  next
    case (Proceed ult upd)
    show ?thesis
    proof (rule identify_merged [OF wf Proceed, of now])
      fix us s1
      assume mr: "mergeReady s1 ult us"
        and res: "identifyContact db NoFault now s em ph =
           (Inr (respond db (relinked now ult us s1) ult), relinked now ult us s1)"
      from mr have u: "linkPrecedence ult = primary" "deletedAt ult = None"
        unfolding mergeReady_def by blast+
      from respond_primary_id [OF mergeReady_ult [OF mr, of now] u(2,1)] res nf Proceed
      show ?thesis by simp
    qed
  qed
qed

text \<open>
  The first call on the empty store.
\<close>

theorem C8_response_shape_witness:
  "identifyContact tableOrder NoFault 10 emptyStore (Some ''a@x.com'') None =
     (Inr \<lparr>contact = \<lparr>primaryContatctId = 1, emails = [''a@x.com''], phoneNumbers = [],
                        secondaryContactIds = []\<rparr>\<rparr>,
      \<lparr>rows = [mkContact 1 (Some ''a@x.com'') None None primary 10 None], nextId = 2\<rparr>)
   \<and> toJSON \<lparr>contact = \<lparr>primaryContatctId = 1, emails = [''a@x.com''], phoneNumbers = [],
                        secondaryContactIds = []\<rparr>\<rparr> =
       JObject [(''contact'',
         JObject [(''primaryContatctId'', JNumber 1),
                  (''emails'', JArray [JString ''a@x.com'']),
                  (''phoneNumbers'', JArray []),
                  (''secondaryContactIds'', JArray [])])]"
proof -
  have h: "identifyContact tableOrder NoFault 10 emptyStore (Some ''a@x.com'') None =
     (Inr \<lparr>contact = \<lparr>primaryContatctId = 1, emails = [''a@x.com''], phoneNumbers = [],
                        secondaryContactIds = []\<rparr>\<rparr>,
      \<lparr>rows = [mkContact 1 (Some ''a@x.com'') None None primary 10 None], nextId = 2\<rparr>)"
    by code_simp
  from C8_response_shape [OF h] h show ?thesis by simp
qed


text \<open>
  C8 as stated fails: the four fields are not at the top level of the result, and the
  first of them is not spelled \<open>primaryContactId\<close>.
\<close>

theorem C8_counterexample:
  "fst (identifyContact tableOrder NoFault 10 emptyStore (Some ''a@x.com'') None) =
     Inr \<lparr>contact = \<lparr>primaryContatctId = 1, emails = [''a@x.com''], phoneNumbers = [], secondaryContactIds = []\<rparr>\<rparr>
   \<and> keys (toJSON \<lparr>contact = \<lparr>primaryContatctId = 1, emails = [''a@x.com''], phoneNumbers = [], secondaryContactIds = []\<rparr>\<rparr>)
       = [''contact'']
   \<and> keys (toJSON \<lparr>contact = \<lparr>primaryContatctId = 1, emails = [''a@x.com''], phoneNumbers = [], secondaryContactIds = []\<rparr>\<rparr>)
       \<noteq> [''primaryContactId'', ''emails'', ''phoneNumbers'', ''secondaryContactIds'']"
  by code_simp

section \<open>The lists of the response\<close>

text \<open>
  C9. For a successful call on a well-formed store, let \<open>p\<close> be the row of the resulting
  store that the response names as primary: it is a live primary. The emails are \<open>p\<close>'s
  own non-empty email, if any, followed by the other non-empty emails of \<open>p\<close>'s cluster in
  ascending order, each once; the phone numbers likewise; the secondary ids are the ids of
  the other rows of the cluster in ascending order, each once. So the emails are exactly
  the non-empty emails of the cluster, the phone numbers its non-empty phones, the secondary
  ids the ids of its rows other than \<open>p\<close>, and no list repeats a value.
\<close>

theorem C9_result_lists:
  assumes wf: "wellFormed s" and res: "identifyContact db f now s em ph = (Inr r, s')"
  shows "\<exists>p\<in>set (rows s'). idC p = primaryContatctId (contact r)
      \<and> linkPrecedence p = primary \<and> deletedAt p = None
      \<and> emails (contact r) =
          optList (email p) @
          sorted_list_of_set (truthyValues email (cluster s' (idC p)) - set (optList (email p)))
      \<and> phoneNumbers (contact r) =
          optList (phoneNumber p) @
          sorted_list_of_set
            (truthyValues phoneNumber (cluster s' (idC p)) - set (optList (phoneNumber p)))
      \<and> secondaryContactIds (contact r) = sorted_list_of_set (idC ` cluster s' (idC p) - {idC p})
      \<and> set (emails (contact r)) = truthyValues email (cluster s' (idC p))
      \<and> set (phoneNumbers (contact r)) = truthyValues phoneNumber (cluster s' (idC p))
      \<and> set (secondaryContactIds (contact r)) = idC ` cluster s' (idC p) - {idC p}
      \<and> distinct (emails (contact r)) \<and> distinct (phoneNumbers (contact r))
      \<and> distinct (secondaryContactIds (contact r))"
proof -
  note nf = identify_success_NoFault [OF res]
  have main: "?thesis"
    if p: "p \<in> set (rows s')" "linkPrecedence p = primary" "deletedAt p = None"
      and r: "r = formatResponse p cs" and cs: "insert p (set cs) = cluster s' (idC p)"
      and ids: "idC ` set cs - {idC p} = idC ` cluster s' (idC p) - {idC p}"
      and all: "\<forall>c\<in>set cs. idC c \<noteq> idC p \<longrightarrow> contributes p cs c"
      and own: "\<forall>c\<in>set cs. idC c = idC p \<longrightarrow> c = p" for p cs
  proof -
    have pin: "p \<in> cluster s' (idC p)" using cs by blast
    note fin = finite_truthyValues [OF finite_cluster, of _ s' "idC p"]
    note sets = set_own_then_sorted [OF fin own_value_in_cluster [OF pin]]
    show ?thesis
      using formatResponse_lists [OF all own] p sets [of email] sets [of phoneNumber]
        finite_cluster [of s' "idC p"]
      unfolding r cs ids
      by (intro bexI [of _ p] conjI) (simp_all add: formatResponse_id)
  qed
  show ?thesis
  proof (cases "plan db s em ph")
    case CreatePrimary
    let ?n = "newContact now s (orNull em) (orNull ph) None primary"
    from nf CreatePrimary have r: "r = formatResponse ?n []" and s': "s' = insertRow s ?n"
      by (auto simp: identifyContact_def identifyContactAmid_def createPrimary_def create_def insertRow_def)
    have n: "idC ?n = nextId s" "deletedAt ?n = None" "linkPrecedence ?n = primary"
      by (simp_all add: newContact_def)
    note cl = new_primary_cluster [OF wf n(1,2)]
    show ?thesis
    proof (rule main [of ?n "[]"])
      show "?n \<in> set (rows s')" by (simp add: s' rows_insertRow)
      show "insert ?n (set []) = cluster s' (idC ?n)" by (simp add: s' cl)
      show "idC ` set [] - {idC ?n} = idC ` cluster s' (idC ?n) - {idC ?n}"
        by (simp add: s' cl)
    qed (simp_all add: n r)
  next
    case (Proceed ult upd)
    show ?thesis
    proof (rule identify_merged [OF wf Proceed, of now])
      fix us s1
      assume mr: "mergeReady s1 ult us"
        and res': "identifyContact db NoFault now s em ph =
           (Inr (respond db (relinked now ult us s1) ult), relinked now ult us s1)"
      from mr have u: "linkPrecedence ult = primary" "deletedAt ult = None"
        unfolding mergeReady_def by blast+
      from res' nf have s': "s' = relinked now ult us s1" and r: "r = respond db s' ult" by simp_all
      have wf': "wellFormed s'" unfolding s' by (rule mergeReady_wellFormed [OF mr])
      have ult': "ult \<in> set (rows s')" unfolding s' by (rule mergeReady_ult [OF mr])
      let ?fg = "finalGroupContacts db s' ult"
      have r': "r = formatResponse ult ?fg"
        unfolding r by (rule respond_wf [OF wf' ult' u(2,1)])
      have mem: "ult \<in> set ?fg" using ult' u by (simp add: finalGroup_iff)
      show ?thesis
      proof (rule main [of ult ?fg])
        show "insert ult (set ?fg) = cluster s' (idC ult)"
          using mem by (auto simp: finalGroup_cluster)
        show "idC ` set ?fg - {idC ult} = idC ` cluster s' (idC ult) - {idC ult}"
          by (simp add: finalGroup_cluster)
        show "\<forall>c\<in>set ?fg. idC c \<noteq> idC ult \<longrightarrow> contributes ult ?fg c"
          by (auto simp: finalGroup_iff contributes_def)
        show "\<forall>c\<in>set ?fg. idC c = idC ult \<longrightarrow> c = ult"
          using wf_same_id [OF wf' _ ult'] by (auto simp: finalGroup_iff)
      qed (fact ult' u r')+
    qed
  qed
qed

text \<open>
  A call on \<open>mergedStore\<close>: the primary's email comes first, the others are sorted.
\<close>

theorem C9_result_lists_witness:
  "wellFormed mergedStore
   \<and> identifyContact tableOrder NoFault 10 mergedStore (Some ''c@x.com'') None =
       (Inr \<lparr>contact = \<lparr>primaryContatctId = 1, emails = [''b@x.com'', ''a@x.com'', ''c@x.com''],
                          phoneNumbers = [''222'', ''111''], secondaryContactIds = [2, 3]\<rparr>\<rparr>,
        mergedStore)
   \<and> distinct [''b@x.com'', ''a@x.com'', ''c@x.com''] \<and> distinct [''222'', ''111'']
   \<and> distinct [2, 3 :: int]"
proof -
  have h: "wellFormed mergedStore" by code_simp
  have e: "identifyContact tableOrder NoFault 10 mergedStore (Some ''c@x.com'') None =
       (Inr \<lparr>contact = \<lparr>primaryContatctId = 1, emails = [''b@x.com'', ''a@x.com'', ''c@x.com''],
                          phoneNumbers = [''222'', ''111''], secondaryContactIds = [2, 3]\<rparr>\<rparr>,
        mergedStore)" by code_simp
  from C9_result_lists [OF h e] h e show ?thesis by simp
qed

section \<open>The primary named in the response\<close>

text \<open>
  C10 (as amended). When the reads settle on an ultimate primary and nothing fails, the
  call returns a result, whatever other clients write to the table between the writes of
  the call and its read-back. The final group is the set of live rows of the table, as the
  read-back finds it, whose id or \<open>linkedId\<close> is the ultimate primary's id. The reported id
  is the ultimate primary's id if the group holds a primary with that id; otherwise the id
  of a primary of the group that no other primary of the group precedes in \<open>createdAt\<close>;
  otherwise, when the group is not empty, the id of a row of the group that no other row
  precedes in \<open>createdAt\<close>. In these three cases it is the id of a row of the group. When
  the group is empty, the reported id is still the ultimate primary's id, which is then the
  id of no row of the group. When no other client writes in between, the group is not
  empty.
\<close>

theorem C10_reported_primary:
  assumes pl: "plan db s em ph = Proceed ult upd"
  shows "\<exists>r s1. identifyContactAmid meanwhile db NoFault now s em ph = (Inr r, meanwhile s1)
      \<and> snd (identifyContact db NoFault now s em ph) = s1
      \<and> cluster s1 (idC ult) \<noteq> {}
      \<and> set (finalGroupContacts db (meanwhile s1) ult) = cluster (meanwhile s1) (idC ult)
      \<and> ((\<exists>c\<in>cluster (meanwhile s1) (idC ult). idC c = idC ult \<and> linkPrecedence c = primary)
           \<longrightarrow> primaryContatctId (contact r) = idC ult)
      \<and> (\<not> (\<exists>c\<in>cluster (meanwhile s1) (idC ult). idC c = idC ult \<and> linkPrecedence c = primary)
           \<and> (\<exists>c\<in>cluster (meanwhile s1) (idC ult). linkPrecedence c = primary)
           \<longrightarrow> (\<exists>p\<in>cluster (meanwhile s1) (idC ult).
                  linkPrecedence p = primary \<and> primaryContatctId (contact r) = idC p
                  \<and> (\<forall>c\<in>cluster (meanwhile s1) (idC ult).
                        linkPrecedence c = primary \<longrightarrow> createdAt p \<le> createdAt c)))
      \<and> (cluster (meanwhile s1) (idC ult) \<noteq> {}
           \<and> (\<forall>c\<in>cluster (meanwhile s1) (idC ult). linkPrecedence c \<noteq> primary)
           \<longrightarrow> (\<exists>p\<in>cluster (meanwhile s1) (idC ult).
                  primaryContatctId (contact r) = idC p
                  \<and> (\<forall>c\<in>cluster (meanwhile s1) (idC ult). createdAt p \<le> createdAt c)))
      \<and> (cluster (meanwhile s1) (idC ult) \<noteq> {}
           \<longrightarrow> primaryContatctId (contact r) \<in> idC ` cluster (meanwhile s1) (idC ult))
      \<and> (cluster (meanwhile s1) (idC ult) = {} \<longrightarrow> primaryContatctId (contact r) = idC ult)"
proof (rule identify_commit [OF pl, of now])
  fix us and s1 :: Store
  let ?s1 = "s1\<lparr>rows := map (applyRow now us) (rows s1)\<rparr>"
  let ?t = "meanwhile ?s1"
  let ?fg = "finalGroupContacts db ?t ult"
  let ?G = "cluster ?t (idC ult)"
  let ?p = "primaryInFinalGroup ult ?fg"
  assume c: "\<And>f meanwhile. f \<noteq> ReadFails \<Longrightarrow> f \<noteq> CreateFails \<Longrightarrow> f \<noteq> TransactionFails \<Longrightarrow>
      identifyContactAmid meanwhile db f now s em ph = readBack db f (meanwhile ?s1) ult"
    and ult: "ult \<in> set (rows s1)"
  have res: "identifyContactAmid meanwhile db NoFault now s em ph = (Inr (respond db ?t ult), ?t)"
    using c [of NoFault meanwhile] by simp
  have alone: "snd (identifyContact db NoFault now s em ph) = ?s1"
    using c [of NoFault "\<lambda>t. t"] by (simp add: identifyContact_def)
  have live: "deletedAt ult = None" using plan_live [OF pl] by simp
  have "applyRow now us ult \<in> set (rows ?s1)" using ult by simp
  then have "applyRow now us ult \<in> cluster ?s1 (idC ult)"
    unfolding cluster_def by (simp add: idC_applyRow deletedAt_applyRow live del: set_map)
  then have ne: "cluster ?s1 (idC ult) \<noteq> {}" by blast
  have G: "set ?fg = ?G" by (rule finalGroup_cluster)
  have pid: "primaryContatctId (contact (respond db ?t ult)) = idC ?p"
    by (simp add: respond_def formatResponse_id)
  note pc = primaryInFinalGroup_cases [OF finalGroup_sorted [of db ?t ult], of ult]
  have empty: "?fg = [] \<longleftrightarrow> ?G = {}" using G by auto
  have a1: "(\<exists>c\<in>?G. idC c = idC ult \<and> linkPrecedence c = primary)
      \<longrightarrow> primaryContatctId (contact (respond db ?t ult)) = idC ult"
    unfolding pid using pc(1) G by simp
  have a2: "\<not> (\<exists>c\<in>?G. idC c = idC ult \<and> linkPrecedence c = primary)
           \<and> (\<exists>c\<in>?G. linkPrecedence c = primary)
           \<longrightarrow> (\<exists>p\<in>?G. linkPrecedence p = primary
                  \<and> primaryContatctId (contact (respond db ?t ult)) = idC p
                  \<and> (\<forall>c\<in>?G. linkPrecedence c = primary \<longrightarrow> createdAt p \<le> createdAt c))"
  proof
    assume h: "\<not> (\<exists>c\<in>?G. idC c = idC ult \<and> linkPrecedence c = primary)
           \<and> (\<exists>c\<in>?G. linkPrecedence c = primary)"
    then have "?p \<in> ?G \<and> linkPrecedence ?p = primary
        \<and> (\<forall>c\<in>?G. linkPrecedence c = primary \<longrightarrow> createdAt ?p \<le> createdAt c)"
      using pc(2) unfolding G by blast
    then show "\<exists>p\<in>?G. linkPrecedence p = primary
                  \<and> primaryContatctId (contact (respond db ?t ult)) = idC p
                  \<and> (\<forall>c\<in>?G. linkPrecedence c = primary \<longrightarrow> createdAt p \<le> createdAt c)"
      unfolding pid by (intro bexI [of _ ?p]) simp_all
  qed
  have a3: "?G \<noteq> {} \<and> (\<forall>c\<in>?G. linkPrecedence c \<noteq> primary)
           \<longrightarrow> (\<exists>p\<in>?G. primaryContatctId (contact (respond db ?t ult)) = idC p
                  \<and> (\<forall>c\<in>?G. createdAt p \<le> createdAt c))"
  proof
    assume h: "?G \<noteq> {} \<and> (\<forall>c\<in>?G. linkPrecedence c \<noteq> primary)"
    then have "?p \<in> ?G \<and> (\<forall>c\<in>?G. createdAt ?p \<le> createdAt c)"
      using pc(3) empty unfolding G by blast
    then show "\<exists>p\<in>?G. primaryContatctId (contact (respond db ?t ult)) = idC p
                  \<and> (\<forall>c\<in>?G. createdAt p \<le> createdAt c)"
      unfolding pid by (intro bexI [of _ ?p]) simp_all
  qed
  have a4: "?G \<noteq> {} \<longrightarrow> primaryContatctId (contact (respond db ?t ult)) \<in> idC ` ?G"
  proof
    assume "?G \<noteq> {}"
    then have "?fg \<noteq> []" using empty by simp
    from primaryInFinalGroup_mem [OF this, of ult] show
      "primaryContatctId (contact (respond db ?t ult)) \<in> idC ` ?G"
      unfolding pid G by (rule imageI)
  qed
  have a5: "?G = {} \<longrightarrow> primaryContatctId (contact (respond db ?t ult)) = idC ult"
    unfolding pid using pc(4) empty by simp
  show ?thesis
    by (intro exI [of _ "respond db ?t ult"] exI [of _ ?s1] conjI res alone ne G a1 a2 a3 a4 a5)
qed

text \<open>
  The request names primary 2 of \<open>familyStore\<close> exactly, so the call writes nothing.
  Before its read-back another request joins the primaries 1 and 2: primary 2 is demoted and
  its secondary is re-pointed to 1. The final group holds row 2 alone, now a secondary, and
  the response names it.
\<close>

theorem C10_reported_primary_witness:
  "plan tableOrder familyStore (Some ''b@x.com'') (Some ''111'')
     = Proceed (mkContact 2 (Some ''b@x.com'') (Some ''111'') None primary 2 None) []
   \<and> linkView (snd (identifyContact tableOrder NoFault 8 familyStore (Some ''a@x.com'') (Some ''111'')))
       = [(1, primary, None, None), (2, secondary, Some 1, None), (3, secondary, Some 1, None),
          (4, secondary, Some 1, None)]
   \<and> fst (identifyContactAmid
             (\<lambda>t. snd (identifyContact tableOrder NoFault 8 t (Some ''a@x.com'') (Some ''111'')))
             tableOrder NoFault 9 familyStore (Some ''b@x.com'') (Some ''111''))
       = Inr \<lparr>contact = \<lparr>primaryContatctId = 2, emails = [''b@x.com''],
                          phoneNumbers = [''111''], secondaryContactIds = []\<rparr>\<rparr>
   \<and> (\<exists>r. identifyContactAmid
                 (\<lambda>t. snd (identifyContact tableOrder NoFault 8 t (Some ''a@x.com'') (Some ''111'')))
                 tableOrder NoFault 9 familyStore (Some ''b@x.com'') (Some ''111'')
               = (Inr r, snd (identifyContact tableOrder NoFault 8 familyStore (Some ''a@x.com'')
                                (Some ''111'')))
        \<and> primaryContatctId (contact r)
            \<in> idC ` cluster (snd (identifyContact tableOrder NoFault 8 familyStore
                                     (Some ''a@x.com'') (Some ''111''))) 2)"
proof -
  let ?ult = "mkContact 2 (Some ''b@x.com'') (Some ''111'') None primary 2 None"
  let ?m = "\<lambda>t. snd (identifyContact tableOrder NoFault 8 t (Some ''a@x.com'') (Some ''111''))"
  have h: "plan tableOrder familyStore (Some ''b@x.com'') (Some ''111'') = Proceed ?ult []"
    by code_simp
  have i: "idC ?ult = 2" by (simp add: mkContact_def)
  have a: "snd (identifyContact tableOrder NoFault 9 familyStore (Some ''b@x.com'') (Some ''111''))
             = familyStore" by code_simp
  have ne: "cluster (?m familyStore) 2 \<noteq> {}"
    by code_simp
  have v: "linkView (?m familyStore)
       = [(1, primary, None, None), (2, secondary, Some 1, None), (3, secondary, Some 1, None),
          (4, secondary, Some 1, None)]" by code_simp
  have e: "fst (identifyContactAmid ?m tableOrder NoFault 9 familyStore (Some ''b@x.com'')
                  (Some ''111''))
       = Inr \<lparr>contact = \<lparr>primaryContatctId = 2, emails = [''b@x.com''],
                          phoneNumbers = [''111''], secondaryContactIds = []\<rparr>\<rparr>"
    by code_simp
  from C10_reported_primary [OF h, of ?m 9] obtain r s1 where
    "identifyContactAmid ?m tableOrder NoFault 9 familyStore (Some ''b@x.com'') (Some ''111'')
       = (Inr r, ?m s1)"
    "snd (identifyContact tableOrder NoFault 9 familyStore (Some ''b@x.com'') (Some ''111'')) = s1"
    "cluster (?m s1) (idC ?ult) \<noteq> {}
       \<longrightarrow> primaryContatctId (contact r) \<in> idC ` cluster (?m s1) (idC ?ult)"
    by (elim exE conjE)
  with a ne i have
    "identifyContactAmid ?m tableOrder NoFault 9 familyStore (Some ''b@x.com'') (Some ''111'')
       = (Inr r, ?m familyStore)
     \<and> primaryContatctId (contact r) \<in> idC ` cluster (?m familyStore) 2"
    by auto
  then have "\<exists>r. identifyContactAmid ?m tableOrder NoFault 9 familyStore (Some ''b@x.com'')
                  (Some ''111'') = (Inr r, ?m familyStore)
     \<and> primaryContatctId (contact r) \<in> idC ` cluster (?m familyStore) 2"
    by (intro exI [of _ r])
  with h v e show ?thesis by (intro conjI)
qed

text \<open>
  C10 as stated fails. The request names primary 11 of \<open>georgeStore\<close> exactly, so the call
  writes nothing. Before its read-back another client soft-deletes row 11: the final group
  is empty, and the response names contact 11, which is not in it.
\<close>

theorem C10_counterexample:
  "plan tableOrder georgeStore (Some ''george@hillvalley.edu'') (Some ''919191'')
     = Proceed (mkContact 11 (Some ''george@hillvalley.edu'') (Some ''919191'') None primary 100 None) []
   \<and> identifyContactAmid (softDelete 11 250) tableOrder NoFault 300 georgeStore
        (Some ''george@hillvalley.edu'') (Some ''919191'') =
       (Inr \<lparr>contact = \<lparr>primaryContatctId = 11, emails = [''george@hillvalley.edu''],
                          phoneNumbers = [''919191''], secondaryContactIds = []\<rparr>\<rparr>,
        softDelete 11 250 georgeStore)
   \<and> finalGroupContacts tableOrder (softDelete 11 250 georgeStore)
        (mkContact 11 (Some ''george@hillvalley.edu'') (Some ''919191'') None primary 100 None) = []"
  by code_simp

end
